theory Spec2Isabelle
  imports Main "HOL-Library.Sublist" "HOL-Library.Word"
begin

section \<open>Catalog store: relational state and the storage engine\<close>

text \<open>
  The schema of \<^verbatim>\<open>db/items.sql\<close>: a table \<^verbatim>\<open>categories (id INTEGER PRIMARY KEY
  AUTOINCREMENT, name TEXT NOT NULL UNIQUE)\<close> and a table \<^verbatim>\<open>items (id INTEGER PRIMARY KEY
  AUTOINCREMENT, name, category_id, image_name)\<close>. A table is the list of its rows in
  insertion order; \<open>seq_categories\<close> and \<open>seq_items\<close> are the two counters that SQLite
  keeps in \<^verbatim>\<open>sqlite_sequence\<close> for the AUTOINCREMENT columns. Text is a \<open>string\<close>, one
  \<open>char\<close> per character.
\<close>

record category_row =
  cat_id :: int
  cat_name :: string

record item_row =
  item_id :: int
  item_name :: string
  category_id :: int
  image_name :: string

record db =
  categories :: "category_row list"
  items :: "item_row list"
  seq_categories :: int
  seq_items :: int

definition empty_db :: db where
  "empty_db = \<lparr>categories = [], items = [], seq_categories = 0, seq_items = 0\<rparr>"

text \<open>
  The Go struct \<^verbatim>\<open>Item\<close> of \<^verbatim>\<open>infra.go\<close>. Its field \<^verbatim>\<open>Image\<close> is called \<open>Image_name\<close>
  here (after its column and JSON tag), since \<open>Image\<close> is a constant of HOL.
\<close>

record Item =
  ID :: int
  Name :: string
  Category :: string
  Image_name :: string

text \<open>
  Errors of \<^verbatim>\<open>database/sql\<close> and of the driver. \<open>ErrNoRows\<close> is \<^verbatim>\<open>sql.ErrNoRows\<close>,
  \<open>ErrUnique\<close> the violation of the UNIQUE constraint on \<^verbatim>\<open>categories.name\<close>, \<open>ErrFull\<close>
  is SQLITE_FULL (AUTOINCREMENT has used the largest rowid), \<open>ErrDriver n\<close> any other
  fault of the storage engine (I/O error, busy database, cancelled context, ...).
\<close>

datatype db_error = ErrNoRows | ErrUnique | ErrFull | ErrDriver nat

text \<open>
  The statements that the repository sends to the engine. Whether the engine answers a
  statement with a fault of its own is not decided by the program: it is the parameter
  \<open>env\<close>, which names the fault (if any) that the engine reports at each statement.
\<close>

datatype step =
    StepBeginTx
  | StepSelectCategory
  | StepInsertCategory
  | StepReselectCategory
  | StepInsertItem
  | StepCommit
  | StepQueryAll
  | StepQueryItem
  | StepQuerySearch
  | StepScan nat

type_synonym env = "step \<Rightarrow> db_error option"

definition no_faults :: env where
  "no_faults = (\<lambda>s. None)"

text \<open>
  AUTOINCREMENT: the new rowid is one more than the largest rowid the table has ever
  held (the larger of the stored counter and the rowids present); when that largest
  rowid is already \<open>2^63 - 1\<close> the INSERT fails with SQLITE_FULL.
\<close>

definition max_rowid :: int where
  "max_rowid = 9223372036854775807"

definition next_rowid :: "int list \<Rightarrow> int \<Rightarrow> int" where
  "next_rowid ids seq = fold max ids seq + 1"

text \<open>\<^verbatim>\<open>SELECT id FROM categories WHERE name = ?\<close> (BINARY collation: exact comparison).\<close>

definition select_category_id :: "db \<Rightarrow> string \<Rightarrow> int list" where
  "select_category_id d name = map cat_id (filter (\<lambda>c. cat_name c = name) (categories d))"

text \<open>\<^verbatim>\<open>INSERT INTO categories (name) VALUES (?)\<close>, with the UNIQUE constraint on the name.\<close>

definition insert_category :: "db \<Rightarrow> string \<Rightarrow> db_error + db" where
  "insert_category d name =
     (let new = next_rowid (map cat_id (categories d)) (seq_categories d) in
      if new > max_rowid then Inl ErrFull
      else if name \<in> set (map cat_name (categories d)) then Inl ErrUnique
      else Inr (d\<lparr>categories := categories d @ [\<lparr>cat_id = new, cat_name = name\<rparr>],
                  seq_categories := new\<rparr>))"

text \<open>
  \<^verbatim>\<open>INSERT INTO items (name, category_id, image_name) VALUES (?, ?, ?)\<close>. The driver is
  opened without \<^verbatim>\<open>_foreign_keys\<close>, so SQLite does not check the FOREIGN KEY clause.
\<close>

definition insert_item :: "db \<Rightarrow> string \<Rightarrow> int \<Rightarrow> string \<Rightarrow> db_error + db" where
  "insert_item d name cid img =
     (let new = next_rowid (map item_id (items d)) (seq_items d) in
      if new > max_rowid then Inl ErrFull
      else Inr (d\<lparr>items := items d @
                    [\<lparr>item_id = new, item_name = name, category_id = cid, image_name = img\<rparr>],
                  seq_items := new\<rparr>))"

text \<open>
  \<^verbatim>\<open>QueryRow(...).Scan(...)\<close>: a fault of the engine, else \<^verbatim>\<open>sql.ErrNoRows\<close> when the
  result is empty, else the first row. \<^verbatim>\<open>ExecContext\<close>: a fault of the engine, else the
  outcome of the statement.
\<close>

definition query_row :: "env \<Rightarrow> step \<Rightarrow> 'a list \<Rightarrow> db_error + 'a" where
  "query_row env s rows =
     (case env s of
        Some err \<Rightarrow> Inl err
      | None \<Rightarrow> (case rows of [] \<Rightarrow> Inl ErrNoRows | r # _ \<Rightarrow> Inr r))"

definition exec :: "env \<Rightarrow> step \<Rightarrow> db_error + db \<Rightarrow> db_error + db" where
  "exec env s outcome = (case env s of Some err \<Rightarrow> Inl err | None \<Rightarrow> outcome)"

subsection \<open>Insert\<close>

text \<open>
  \<^verbatim>\<open>itemRepository.Insert\<close>. \<open>store\<close> is the committed state of the database. \<^verbatim>\<open>BeginTx\<close>
  opens a transaction \<open>tx\<close> that works on a copy of it. Every \<^verbatim>\<open>return err\<close> leaves the
  function before \<^verbatim>\<open>tx.Commit()\<close>, so the deferred \<^verbatim>\<open>tx.Rollback()\<close> discards the copy
  and the committed state is \<open>store\<close> as before; only a successful commit installs the
  copy. (A commit that fails is taken to install nothing.) The result is the returned
  error (\<open>None\<close> for \<^verbatim>\<open>nil\<close>) and the committed state afterwards.

  \<open>lookup_or_create\<close> is the first block of the function body (the lookup of the
  category id, and the INSERT and second lookup when \<^verbatim>\<open>sql.ErrNoRows\<close> comes back): it
  yields the error that makes \<^verbatim>\<open>Insert\<close> return, or the transaction's copy and
  \<^verbatim>\<open>categoryID\<close>.
\<close>

definition lookup_or_create :: "env \<Rightarrow> db \<Rightarrow> string \<Rightarrow> db_error + (db \<times> int)" where
  "lookup_or_create env tx name =
     (case query_row env StepSelectCategory (select_category_id tx name) of
        Inr categoryID \<Rightarrow> Inr (tx, categoryID)
      | Inl err \<Rightarrow>
         (if err = ErrNoRows then
            (case exec env StepInsertCategory (insert_category tx name) of
               Inl err \<Rightarrow> Inl err
             | Inr tx \<Rightarrow>
                (case query_row env StepReselectCategory (select_category_id tx name) of
                   Inl err \<Rightarrow> Inl err
                 | Inr categoryID \<Rightarrow> Inr (tx, categoryID)))
          else Inl err))"

definition Insert :: "env \<Rightarrow> db \<Rightarrow> Item \<Rightarrow> db_error option \<times> db" where
  "Insert env store item =
     (case env StepBeginTx of
        Some err \<Rightarrow> (Some err, store)
      | None \<Rightarrow>
         (case lookup_or_create env store (Category item) of
            Inl err \<Rightarrow> (Some err, store)
          | Inr (tx, categoryID) \<Rightarrow>
             (case exec env StepInsertItem
                     (insert_item tx (Name item) categoryID (Image_name item)) of
                Inl err \<Rightarrow> (Some err, store)
              | Inr tx \<Rightarrow>
                 (case env StepCommit of
                    Some err \<Rightarrow> (Some err, store)
                  | None \<Rightarrow> (None, tx)))))"

text \<open>A sequence of calls of \<^verbatim>\<open>Insert\<close>, each with the faults its statements meet.\<close>

fun Inserts :: "db \<Rightarrow> (env \<times> Item) list \<Rightarrow> db" where
  "Inserts store [] = store"
| "Inserts store ((env, item) # rest) = Inserts (snd (Insert env store item)) rest"

subsection \<open>Queries\<close>

text \<open>
  \<^verbatim>\<open>FROM items INNER JOIN categories ON items.category_id = categories.id\<close>: for each
  item row, in the order of the table, the category rows with its \<^verbatim>\<open>category_id\<close>.
\<close>

definition join_items :: "db \<Rightarrow> (item_row \<times> category_row) list" where
  "join_items d =
     concat (map (\<lambda>i. map (Pair i) (filter (\<lambda>c. category_id i = cat_id c) (categories d)))
                 (items d))"

text \<open>
  The selected columns \<^verbatim>\<open>items.id, items.name, categories.name, items.image_name\<close>, as
  \<^verbatim>\<open>Scan\<close> stores them in an \<^verbatim>\<open>Item\<close>.
\<close>

definition scan_item :: "item_row \<times> category_row \<Rightarrow> Item" where
  "scan_item r = \<lparr>ID = item_id (fst r), Name = item_name (fst r),
                  Category = cat_name (snd r), Image_name = image_name (fst r)\<rparr>"

text \<open>
  Errors of the application: the two sentinels of \<^verbatim>\<open>infra.go\<close>, an error of the storage
  engine passed on, and the errors that \<^verbatim>\<open>server.go\<close> makes with \<^verbatim>\<open>fmt.Errorf\<close> (an
  invalid image path, a path with the wrong suffix, a failed write or read of a file).
\<close>

datatype app_error =
    ErrItemNotFound
  | ErrImageNotFound
  | ErrStorage db_error
  | ErrInvalidPath string
  | ErrSuffix string
  | ErrWriteFile nat
  | ErrReadFile string

text \<open>
  \<^verbatim>\<open>GetItemById\<close>. The id is a Go string, bound as TEXT to \<^verbatim>\<open>WHERE items.id = ?\<close>. The
  column has INTEGER affinity, so SQLite turns a text that is a well-formed number into
  that number before comparing, and a text that is not is equal to no id. \<open>to_int\<close> is
  that conversion of SQLite (\<open>None\<close> for a text that denotes no integer); it is a
  parameter of the model.
\<close>

definition GetItemById :: "(string \<Rightarrow> int option) \<Rightarrow> env \<Rightarrow> db \<Rightarrow> string \<Rightarrow> app_error + Item" where
  "GetItemById to_int env d item_id' =
     (case query_row env StepQueryItem
             (map scan_item (filter (\<lambda>r. to_int item_id' = Some (item_id (fst r))) (join_items d))) of
        Inl err \<Rightarrow> (if err = ErrNoRows then Inl ErrItemNotFound else Inl (ErrStorage err))
      | Inr item \<Rightarrow> Inr item)"

text \<open>
  The loop \<^verbatim>\<open>for rows.Next() { ... rows.Scan(...) ... items = append(items, item) }\<close> of
  \<^verbatim>\<open>GetAll\<close> and \<^verbatim>\<open>SearchItemsByKeyword\<close>: \<open>k\<close> counts the rows read so far, and a fault
  while scanning row \<open>k\<close> ends the function with that error. (The two functions never
  read \<^verbatim>\<open>rows.Err()\<close>; a fault inside \<^verbatim>\<open>rows.Next()\<close> is outside the model.)
\<close>

fun scan_rows :: "env \<Rightarrow> nat \<Rightarrow> (item_row \<times> category_row) list \<Rightarrow> Item list \<Rightarrow> db_error + Item list" where
  "scan_rows env k [] acc = Inr acc"
| "scan_rows env k (r # rs) acc =
     (case env (StepScan k) of
        Some err \<Rightarrow> Inl err
      | None \<Rightarrow> scan_rows env (Suc k) rs (acc @ [scan_item r]))"

definition GetAll :: "env \<Rightarrow> db \<Rightarrow> db_error + Item list" where
  "GetAll env d =
     (case env StepQueryAll of
        Some err \<Rightarrow> Inl err
      | None \<Rightarrow> scan_rows env 0 (join_items d) [])"

text \<open>
  The LIKE operator of SQLite, pattern first: \<^verbatim>\<open>%\<close> matches any run of characters, \<^verbatim>\<open>_\<close>
  any one character, and every other character matches itself, the letters A to Z
  without regard to case. No escape character is in force.
\<close>

definition ascii_lower :: "char \<Rightarrow> char" where
  "ascii_lower c =
     (case map_of (zip ''ABCDEFGHIJKLMNOPQRSTUVWXYZ'' ''abcdefghijklmnopqrstuvwxyz'') c of
        None \<Rightarrow> c
      | Some l \<Rightarrow> l)"

fun like :: "string \<Rightarrow> string \<Rightarrow> bool" where
  "like [] [] = True"
| "like [] (c # cs) = False"
| "like (p # ps) [] = (p = CHR ''%'' \<and> like ps [])"
| "like (p # ps) (c # cs) =
     (if p = CHR ''%'' then like ps (c # cs) \<or> like (p # ps) cs
      else (p = CHR ''_'' \<or> ascii_lower p = ascii_lower c) \<and> like ps cs)"

text \<open>\<^verbatim>\<open>SearchItemsByKeyword\<close>: the join, restricted by \<^verbatim>\<open>items.name LIKE '%' + keyword + '%'\<close>.\<close>

definition SearchItemsByKeyword :: "env \<Rightarrow> db \<Rightarrow> string \<Rightarrow> db_error + Item list" where
  "SearchItemsByKeyword env d keyword =
     (case env StepQuerySearch of
        Some err \<Rightarrow> Inl err
      | None \<Rightarrow>
         scan_rows env 0
           (filter (\<lambda>r. like (''%'' @ keyword @ ''%'') (item_name (fst r))) (join_items d)) [])"

text \<open>
  What the schema makes the engine keep: the two primary keys and the UNIQUE name.
  \<open>ref_integrity\<close> is the FOREIGN KEY of the schema, which the engine does not check.
\<close>

definition wf_db :: "db \<Rightarrow> bool" where
  "wf_db d \<longleftrightarrow>
     distinct (map cat_id (categories d)) \<and>
     distinct (map cat_name (categories d)) \<and>
     distinct (map item_id (items d))"

definition ref_integrity :: "db \<Rightarrow> bool" where
  "ref_integrity d \<longleftrightarrow> list_all (\<lambda>i. category_id i \<in> set (map cat_id (categories d))) (items d)"

subsection \<open>Concrete data for the examples\<close>

definition bike :: Item where
  "bike = \<lparr>ID = 0, Name = ''Bike'', Category = ''Sports'', Image_name = ''abc.jpg''\<rparr>"

definition ball :: Item where
  "ball = \<lparr>ID = 0, Name = ''Ball'', Category = ''Sports'', Image_name = ''def.jpg''\<rparr>"

text \<open>The store after \<open>bike\<close> has been inserted into the empty one, and after \<open>ball\<close> too.\<close>

definition sports_db :: db where
  "sports_db = \<lparr>categories = [\<lparr>cat_id = 1, cat_name = ''Sports''\<rparr>],
      items = [\<lparr>item_id = 1, item_name = ''Bike'', category_id = 1, image_name = ''abc.jpg''\<rparr>],
      seq_categories = 1, seq_items = 1\<rparr>"

definition sports_db2 :: db where
  "sports_db2 = sports_db\<lparr>items := items sports_db @
      [\<lparr>item_id = 2, item_name = ''Ball'', category_id = 1, image_name = ''def.jpg''\<rparr>],
      seq_items := 2\<rparr>"

text \<open>Engines that fail at one statement.\<close>

definition item_insert_fails :: env where
  "item_insert_fails = no_faults(StepInsertItem := Some (ErrDriver 13))"

definition query_fails :: env where
  "query_fails = no_faults(StepQueryItem := Some (ErrDriver 10))"

text \<open>A conversion of text to integers that is enough for the examples.\<close>

definition decimal_1_2 :: "string \<Rightarrow> int option" where
  "decimal_1_2 s = (if s = ''1'' then Some 1 else if s = ''2'' then Some 2 else None)"

text \<open>The catalog with the items named \<^verbatim>\<open>Blue Shirt\<close>, \<^verbatim>\<open>Shirt\<close> and \<^verbatim>\<open>Pants\<close>.\<close>

definition shirts_db :: db where
  "shirts_db = \<lparr>categories = [\<lparr>cat_id = 1, cat_name = ''Clothes''\<rparr>],
      items = [\<lparr>item_id = 1, item_name = ''Blue Shirt'', category_id = 1, image_name = ''a.jpg''\<rparr>,
               \<lparr>item_id = 2, item_name = ''Shirt'', category_id = 1, image_name = ''b.jpg''\<rparr>,
               \<lparr>item_id = 3, item_name = ''Pants'', category_id = 1, image_name = ''c.jpg''\<rparr>],
      seq_categories = 1, seq_items = 3\<rparr>"

text \<open>
  What the specification asks of the search: the name contains the keyword as a
  substring, the letters A to Z compared without regard to case.
\<close>

definition contains_keyword :: "string \<Rightarrow> string \<Rightarrow> bool" where
  "contains_keyword keyword name = sublist (map ascii_lower keyword) (map ascii_lower name)"

section \<open>File paths\<close>

text \<open>
  The functions of Go's \<^verbatim>\<open>path/filepath\<close> and \<^verbatim>\<open>strings\<close> that \<^verbatim>\<open>server.go\<close> calls, for
  a system whose separator is \<^verbatim>\<open>/\<close> (the image of the \<^verbatim>\<open>Dockerfile\<close>). A path is read as
  the list of its elements, the pieces between the separators.
\<close>

fun split_sep :: "string \<Rightarrow> string list" where
  "split_sep [] = [[]]"
| "split_sep (c # cs) =
     (if c = CHR ''/'' then [] # split_sep cs
      else (case split_sep cs of [] \<Rightarrow> [[c]] | x # xs \<Rightarrow> (c # x) # xs))"

fun join_sep :: "string list \<Rightarrow> string" where
  "join_sep [] = []"
| "join_sep [x] = x"
| "join_sep (x # y # ys) = x @ CHR ''/'' # join_sep (y # ys)"

text \<open>
  \<^verbatim>\<open>filepath.Clean\<close>, one element at a time; \<open>out\<close> holds the elements written so far.
  An empty element and \<^verbatim>\<open>.\<close> are dropped; \<^verbatim>\<open>..\<close> removes the element before it when
  there is one that is not itself \<^verbatim>\<open>..\<close>, is dropped at the root of a rooted path, and
  is kept otherwise.
\<close>

definition clean_step :: "bool \<Rightarrow> string list \<Rightarrow> string \<Rightarrow> string list" where
  "clean_step rooted out c =
     (if c = [] \<or> c = ''.'' then out
      else if c = ''..'' then
        (if out \<noteq> [] \<and> last out \<noteq> ''..'' then butlast out
         else if rooted then out
         else out @ [''..''])
      else out @ [c])"

definition Clean :: "string \<Rightarrow> string" where
  "Clean path =
     (if path = [] then ''.''
      else
        (let rooted = (hd path = CHR ''/'');
             out = foldl (clean_step rooted) [] (split_sep path)
         in if rooted then CHR ''/'' # join_sep out
            else if out = [] then ''.''
            else join_sep out))"

text \<open>
  \<^verbatim>\<open>filepath.Join\<close>: the elements from the first non-empty one on, joined with the
  separator and cleaned; the empty string when all are empty.
\<close>

fun Join :: "string list \<Rightarrow> string" where
  "Join [] = []"
| "Join (e # es) = (if e = [] then Join es else Clean (join_sep (e # es)))"

text \<open>
  \<^verbatim>\<open>filepath.Rel\<close>. Both paths are cleaned; equal paths give \<^verbatim>\<open>.\<close>; a rooted and an
  unrooted path cannot be related; otherwise the common leading elements are removed
  (\<open>common\<close> also returns the element of the base at which the comparison stopped, empty
  when one of the paths ran out), the base must not stop at \<^verbatim>\<open>..\<close>, and the result goes
  up once for every element left of the base and then down the elements left of the
  target. \<open>elements\<close> gives the elements of a cleaned path as \<^verbatim>\<open>Rel\<close> walks them.
  Whenever elements of the base are left over, the result is an error or begins with
  \<^verbatim>\<open>..\<close>; \<^verbatim>\<open>buildImagePath\<close>, the one caller, treats the two alike.
\<close>

definition elements :: "string \<Rightarrow> string list" where
  "elements p = (if p = [] then [] else if p = ''/'' then [[]] else split_sep p)"

fun common :: "string list \<Rightarrow> string list \<Rightarrow> string list \<times> string list \<times> string" where
  "common [] ts = ([], ts, [])"
| "common (b # bs) [] = (b # bs, [], [])"
| "common (b # bs) (t # ts) = (if b = t then common bs ts else (b # bs, t # ts, b))"

datatype rel_error = RelError

definition Rel :: "string \<Rightarrow> string \<Rightarrow> rel_error + string" where
  "Rel basepath targpath =
     (let base = Clean basepath; targ = Clean targpath in
      if targ = base then Inr ''.''
      else
        (let base = (if base = ''.'' then [] else base) in
         if (base \<noteq> [] \<and> hd base = CHR ''/'') \<noteq> (targ \<noteq> [] \<and> hd targ = CHR ''/'')
         then Inl RelError
         else
           (case common (elements base) (elements targ) of
              (bs, ts, stop) \<Rightarrow>
                if stop = ''..'' then Inl RelError
                else if bs \<noteq> [] then
                  Inr (join_sep (replicate (length bs) ''..'' @
                                 (if ts \<noteq> [] then [join_sep ts] else [])))
                else Inr (join_sep ts))))"

text \<open>
  Notions for stating where a path lies. An element is \<open>normal\<close> when it names a file or
  directory: it is not empty, not \<^verbatim>\<open>.\<close>, not \<^verbatim>\<open>..\<close>, and holds no separator. The
  elements of the root are those of the cleaned directory (none for the working
  directory \<^verbatim>\<open>.\<close>). A path lies inside the root when its elements are those of the root
  followed by at least one more, all of them normal; \<open>relative_path\<close> is what follows
  the root.
\<close>

definition normal :: "string \<Rightarrow> bool" where
  "normal c \<longleftrightarrow> c \<noteq> [] \<and> c \<noteq> ''.'' \<and> c \<noteq> ''..'' \<and> CHR ''/'' \<notin> set c"

definition root_elements :: "string \<Rightarrow> string list" where
  "root_elements dir = (if Clean dir = ''.'' then [] else elements (Clean dir))"

definition relative_path :: "string \<Rightarrow> string \<Rightarrow> string list" where
  "relative_path dir p = drop (length (root_elements dir)) (elements p)"

definition inside_root :: "string \<Rightarrow> string \<Rightarrow> bool" where
  "inside_root dir p \<longleftrightarrow>
     prefix (root_elements dir) (elements p) \<and>
     relative_path dir p \<noteq> [] \<and>
     list_all normal (relative_path dir p)"

definition image_suffix :: "string \<Rightarrow> bool" where
  "image_suffix p \<longleftrightarrow> suffix ''.jpg'' p \<or> suffix ''.jpeg'' p"

text \<open>
  The shape of what \<^verbatim>\<open>Clean\<close> writes: some \<^verbatim>\<open>..\<close> (none in a rooted path) and then
  normal elements; and the shape of a cleaned path.
\<close>

definition clean_inv :: "bool \<Rightarrow> string list \<Rightarrow> bool" where
  "clean_inv rooted out \<longleftrightarrow>
     (\<exists>k ns. out = replicate k ''..'' @ ns \<and> list_all normal ns \<and> (rooted \<longrightarrow> k = 0))"

definition is_clean :: "string \<Rightarrow> bool" where
  "is_clean p \<longleftrightarrow>
     p = ''.'' \<or>
     (\<exists>ns. list_all normal ns \<and> p = CHR ''/'' # join_sep ns) \<or>
     (\<exists>out. out \<noteq> [] \<and> clean_inv False out \<and> p = join_sep out)"

text \<open>\<^verbatim>\<open>filepath.ToSlash\<close> changes nothing where the separator is \<^verbatim>\<open>/\<close>.\<close>

definition ToSlash :: "string \<Rightarrow> string" where
  "ToSlash p = p"

text \<open>\<^verbatim>\<open>strings.TrimPrefix\<close>; \<^verbatim>\<open>strings.HasPrefix\<close> and \<^verbatim>\<open>strings.HasSuffix\<close> are \<open>prefix\<close> and \<open>suffix\<close>.\<close>

definition TrimPrefix :: "string \<Rightarrow> string \<Rightarrow> string" where
  "TrimPrefix s pre = (if prefix pre s then drop (length pre) s else s)"

section \<open>Image blob store and handlers\<close>

text \<open>
  The files of the process: the content of each regular file, by the path it is opened
  with (directories are not among them). \<^verbatim>\<open>os.Stat\<close> and \<^verbatim>\<open>os.ReadFile\<close> succeed on
  the paths that hold a file. \<^verbatim>\<open>os.WriteFile\<close> either stores the bytes or fails; whether
  it fails is a parameter (\<open>write_fault\<close>), and a failed write is taken to leave no file
  behind.
\<close>

type_synonym byte = "8 word"

type_synonym files = "string \<Rightarrow> byte list option"

text \<open>\<^verbatim>\<open>fmt.Sprintf("%x", hash)\<close>: two lower-case hexadecimal digits for each byte.\<close>

definition hex_digit :: "nat \<Rightarrow> char" where
  "hex_digit n = ''0123456789abcdef'' ! (n mod 16)"

definition hex_byte :: "byte \<Rightarrow> string" where
  "hex_byte b = [hex_digit (unat b div 16), hex_digit (unat b mod 16)]"

definition hex_encode :: "byte list \<Rightarrow> string" where
  "hex_encode bs = concat (map hex_byte bs)"

text \<open>
  \<^verbatim>\<open>Handlers.storeImage\<close>. \<open>sha256\<close> is \<^verbatim>\<open>sha256.Sum256\<close> of Go's library, a parameter
  of the model. The result is the returned path or error, and the files afterwards.
\<close>

definition storeImage ::
  "(byte list \<Rightarrow> byte list) \<Rightarrow> string \<Rightarrow> nat option \<Rightarrow> files \<Rightarrow> byte list
     \<Rightarrow> (app_error + string) \<times> files" where
  "storeImage sha256 imgDirPath write_fault fs img =
     (let hash = sha256 img;
          fileName = hex_encode hash @ ''.jpg'';
          filePath = ToSlash (Join [imgDirPath, fileName])
      in if fs filePath \<noteq> None then (Inr filePath, fs)
         else (case write_fault of
                 Some n \<Rightarrow> (Inl (ErrWriteFile n), fs)
               | None \<Rightarrow> (Inr filePath, fs(filePath \<mapsto> img))))"

text \<open>
  \<^verbatim>\<open>Handlers.buildImagePath\<close>: the returned path and error (\<open>None\<close> for \<^verbatim>\<open>nil\<close>).
\<close>

definition buildImagePath :: "string \<Rightarrow> files \<Rightarrow> string \<Rightarrow> string \<times> app_error option" where
  "buildImagePath imgDirPath fs imageFileName =
     (let imgPath = Join [imgDirPath, Clean imageFileName] in
      case Rel imgDirPath imgPath of
        Inl err \<Rightarrow> ([], Some (ErrInvalidPath imgPath))
      | Inr rel \<Rightarrow>
         if prefix ''..'' rel then ([], Some (ErrInvalidPath imgPath))
         else if \<not> suffix ''.jpg'' imgPath \<and> \<not> suffix ''.jpeg'' imgPath
           then ([], Some (ErrSuffix imgPath))
         else if fs imgPath = None then (imgPath, Some ErrImageNotFound)
         else (imgPath, None))"

text \<open>
  What a handler answers: an error with its HTTP status, the JSON message of
  \<^verbatim>\<open>AddItem\<close>, or the file that \<^verbatim>\<open>http.ServeFile\<close> is given; and what
  \<^verbatim>\<open>http.ServeFile\<close> answers in its turn: an error, a redirect, or the content of a file
  (handed to \<^verbatim>\<open>serveContent\<close>, which writes it as the request's headers ask).
\<close>

datatype response =
    HTTPError nat
  | AddItemResponse string
  | ServeFile string
  | Redirect string
  | ServeContent string "byte list"

text \<open>
  \<^verbatim>\<open>Handlers.GetImage\<close>, from the path value \<^verbatim>\<open>filename\<close> of the request on
  (\<^verbatim>\<open>parseGetImageRequest\<close> refuses the empty one).
\<close>

definition GetImage :: "string \<Rightarrow> files \<Rightarrow> string \<Rightarrow> response" where
  "GetImage imgDirPath fs fileName =
     (if fileName = [] then HTTPError 400
      else
        (case buildImagePath imgDirPath fs fileName of
           (imgPath, Some err) \<Rightarrow>
             if err \<noteq> ErrImageNotFound then HTTPError 400
             else ServeFile (Join [imgDirPath, ''default.jpg''])
         | (imgPath, None) \<Rightarrow> ServeFile imgPath))"

text \<open>
  \<^verbatim>\<open>http.ServeFile\<close> of Go's library, for the request path \<open>urlPath\<close> (\<^verbatim>\<open>r.URL.Path\<close>) and
  the file \<open>name\<close>. It refuses a request path with an element \<^verbatim>\<open>..\<close> between slashes or
  backslashes (\<^verbatim>\<open>containsDotDot\<close>), redirects a request path that ends in
  \<^verbatim>\<open>/index.html\<close>, answers 404 when the file cannot be opened, and serves the file's
  content otherwise.
\<close>

fun split_slashes :: "string \<Rightarrow> string list" where
  "split_slashes [] = [[]]"
| "split_slashes (c # cs) =
     (if c = CHR ''/'' \<or> c = CHR 0x5C then [] # split_slashes cs
      else (case split_slashes cs of [] \<Rightarrow> [[c]] | x # xs \<Rightarrow> (c # x) # xs))"

definition containsDotDot :: "string \<Rightarrow> bool" where
  "containsDotDot v \<longleftrightarrow> ''..'' \<in> set (split_slashes v)"

definition http_ServeFile :: "files \<Rightarrow> string \<Rightarrow> string \<Rightarrow> response" where
  "http_ServeFile fs urlPath name =
     (if containsDotDot urlPath then HTTPError 400
      else if suffix ''/index.html'' urlPath then Redirect ''./''
      else (case fs name of
              None \<Rightarrow> HTTPError 404
            | Some content \<Rightarrow> ServeContent name content))"

text \<open>
  What the client of \<^verbatim>\<open>GET /images/{filename}\<close> receives: the answer of \<^verbatim>\<open>GetImage\<close>,
  with its call of \<^verbatim>\<open>http.ServeFile\<close> carried out. The route of \<^verbatim>\<open>Run\<close> makes the request
  path \<^verbatim>\<open>/images/\<close> followed by the file name.
\<close>

definition GetImage_answer :: "string \<Rightarrow> files \<Rightarrow> string \<Rightarrow> response" where
  "GetImage_answer imgDirPath fs fileName =
     (case GetImage imgDirPath fs fileName of
        ServeFile name \<Rightarrow> http_ServeFile fs (''/images/'' @ fileName) name
      | answer \<Rightarrow> answer)"

text \<open>
  \<^verbatim>\<open>Handlers.AddItem\<close>. \<open>parsed\<close> is what \<^verbatim>\<open>parseAddItemRequest\<close> returns: an error, or
  the request with the form values \<^verbatim>\<open>name\<close> and \<^verbatim>\<open>category\<close> and the bytes of the
  uploaded file (none when no file was sent). The result is the answer, the files and
  the committed state of the database afterwards. (Writing the JSON answer is taken to
  succeed.)
\<close>

record AddItemRequest =
  ReqName :: string
  ReqCategory :: string
  ReqImage :: "byte list"

definition AddItem ::
  "(byte list \<Rightarrow> byte list) \<Rightarrow> string \<Rightarrow> nat option \<Rightarrow> env \<Rightarrow> string + AddItemRequest
     \<Rightarrow> files \<Rightarrow> db \<Rightarrow> response \<times> files \<times> db" where
  "AddItem sha256 imgDirPath write_fault env parsed fs store =
     (case parsed of
        Inl err \<Rightarrow> (HTTPError 500, fs, store)
      | Inr req \<Rightarrow>
         (case (if length (ReqImage req) > 0
                then storeImage sha256 imgDirPath write_fault fs (ReqImage req)
                else (case fs (Join [imgDirPath, ''default.jpg'']) of
                        None \<Rightarrow> (Inl (ErrReadFile (Join [imgDirPath, ''default.jpg''])), fs)
                      | Some defaultImage \<Rightarrow>
                          storeImage sha256 imgDirPath write_fault fs defaultImage)) of
            (Inl err, fs') \<Rightarrow> (HTTPError 500, fs', store)
          | (Inr fileName, fs') \<Rightarrow>
             (let item = \<lparr>ID = 0, Name = ReqName req, Category = ReqCategory req,
                          Image_name = TrimPrefix fileName ''images/''\<rparr> in
              case Insert env store item of
                (Some err, store') \<Rightarrow> (HTTPError 500, fs', store')
              | (None, store') \<Rightarrow>
                  (AddItemResponse (''item received: '' @ Name item), fs', store'))))"

subsection \<open>Concrete data for the examples\<close>

text \<open>A stand-in for the digest in the examples, and two states of the files.\<close>

definition example_digest :: "byte list \<Rightarrow> byte list" where
  "example_digest b = take 2 (b @ [0, 0])"

definition no_files :: files where
  "no_files = Map.empty"

definition default_only :: files where
  "default_only = Map.empty(''images/default.jpg'' \<mapsto> [7, 7, 7])"

definition hat_request :: AddItemRequest where
  "hat_request = \<lparr>ReqName = ''Hat'', ReqCategory = ''Clothes'', ReqImage = []\<rparr>"

section \<open>Properties of the catalog store\<close>

subsection \<open>Row identifiers and lookups\<close>

lemma fold_max_ge_init: "(s::int) \<le> fold max xs s"
  by (induction xs arbitrary: s) (auto intro: order_trans[OF max.cobounded2])

lemma fold_max_ge_elem: "(x::int) \<in> set xs \<Longrightarrow> x \<le> fold max xs s"
proof (induction xs arbitrary: s)
  case Nil then show ?case by simp
next
  case (Cons y ys)
  show ?case
  proof (cases "x = y")
    case True
    have "y \<le> max y s" by simp
    also have "\<dots> \<le> fold max ys (max y s)" by (rule fold_max_ge_init)
    finally show ?thesis using True by simp
  next
    case False
    with Cons show ?thesis by simp
  qed
qed

lemma next_rowid_fresh: "next_rowid ids seq \<notin> set ids"
  using fold_max_ge_elem[of "next_rowid ids seq" ids seq] by (auto simp: next_rowid_def)

lemma filter_distinct_map:
  "distinct (map f xs) \<Longrightarrow> x \<in> set xs \<Longrightarrow> filter (\<lambda>y. f y = f x) xs = [x]"
proof (induction xs)
  case Nil then show ?case by simp
next
  case (Cons a xs)
  show ?case
  proof (cases "a = x")
    case True
    with Cons.prems have "\<forall>y\<in>set xs. f y \<noteq> f x" by (auto simp: image_iff)
    then have "filter (\<lambda>y. f y = f x) xs = []" by (simp add: filter_empty_conv)
    with True show ?thesis by simp
  next
    case False
    with Cons.prems have "x \<in> set xs" "f a \<noteq> f x" by (auto simp: image_iff)
    with Cons show ?thesis by simp
  qed
qed

lemma select_existing:
  assumes "distinct (map cat_name (categories d))" "c \<in> set (categories d)"
  shows "select_category_id d (cat_name c) = [cat_id c]"
  using filter_distinct_map[OF assms] by (simp add: select_category_id_def)

lemma select_missing:
  "name \<notin> set (map cat_name (categories d)) \<Longrightarrow> select_category_id d name = []"
  by (auto simp: select_category_id_def filter_empty_conv)

lemma lookup_or_create_existing:
  assumes "distinct (map cat_name (categories d))" "c \<in> set (categories d)"
      and "lookup_or_create env d (cat_name c) = Inr (tx, cid)"
  shows "tx = d \<and> cid = cat_id c"
proof (cases "env StepSelectCategory")
  case None
  with assms show ?thesis
    by (simp add: lookup_or_create_def query_row_def select_existing)
next
  case (Some e)
  have "insert_category d (cat_name c) = Inl ErrFull \<or> insert_category d (cat_name c) = Inl ErrUnique"
    using assms(2) by (auto simp: insert_category_def Let_def)
  with Some assms(3) show ?thesis
    by (auto simp: lookup_or_create_def query_row_def exec_def split: if_splits option.splits)
qed

lemma lookup_or_create_new:
  assumes "name \<notin> set (map cat_name (categories d))"
      and "lookup_or_create env d name = Inr (tx, cid)"
  shows "tx = d\<lparr>categories := categories d @ [\<lparr>cat_id = cid, cat_name = name\<rparr>], seq_categories := cid\<rparr>
         \<and> cid = next_rowid (map cat_id (categories d)) (seq_categories d)"
proof -
  let ?new = "next_rowid (map cat_id (categories d)) (seq_categories d)"
  let ?tx = "d\<lparr>categories := categories d @ [\<lparr>cat_id = ?new, cat_name = name\<rparr>], seq_categories := ?new\<rparr>"
  have sel: "select_category_id ?tx name = [?new]"
    using assms(1) by (auto simp: select_category_id_def filter_empty_conv)
  have ins: "insert_category d name = Inl ErrFull \<or> insert_category d name = Inr ?tx"
    using assms(1) by (auto simp: insert_category_def Let_def)
  from assms(2) ins sel show ?thesis
    by (auto simp: lookup_or_create_def query_row_def exec_def select_missing[OF assms(1)]
             split: if_splits option.splits sum.splits)
qed

lemma Insert_error_store:
  "fst (Insert env store item) \<noteq> None \<Longrightarrow> snd (Insert env store item) = store"
  by (auto simp: Insert_def split: option.splits sum.splits prod.splits)

lemma Insert_ok_steps:
  assumes "Insert env store item = (None, store')"
  obtains tx cid where "lookup_or_create env store (Category item) = Inr (tx, cid)"
    and "insert_item tx (Name item) cid (Image_name item) = Inr store'"
  using assms
  by (auto simp: Insert_def exec_def split: option.splits sum.splits prod.splits)

lemma insert_item_ok:
  assumes "insert_item tx n cid img = Inr d"
  shows "d = tx\<lparr>items := items tx @ [\<lparr>item_id = next_rowid (map item_id (items tx)) (seq_items tx),
                 item_name = n, category_id = cid, image_name = img\<rparr>],
               seq_items := next_rowid (map item_id (items tx)) (seq_items tx)\<rparr>"
  using assms by (auto simp: insert_item_def Let_def split: if_splits)

lemma lookup_or_create_cases:
  assumes "distinct (map cat_name (categories d))"
      and "lookup_or_create env d name = Inr (tx, cid)"
  shows "(\<exists>c\<in>set (categories d). cat_name c = name \<and> cid = cat_id c \<and> tx = d) \<or>
         (name \<notin> set (map cat_name (categories d)) \<and>
          cid = next_rowid (map cat_id (categories d)) (seq_categories d) \<and>
          tx = d\<lparr>categories := categories d @ [\<lparr>cat_id = cid, cat_name = name\<rparr>],
                 seq_categories := cid\<rparr>)"
proof (cases "name \<in> set (map cat_name (categories d))")
  case True
  then obtain c where c: "c \<in> set (categories d)" "cat_name c = name" by auto
  with lookup_or_create_existing[OF assms(1) c(1), of env tx cid] assms(2)
  show ?thesis by auto
next
  case False
  with lookup_or_create_new[OF False assms(2)] show ?thesis by simp
qed

lemma lookup_or_create_wf:
  assumes "wf_db d" "lookup_or_create env d name = Inr (tx, cid)"
  shows "wf_db tx \<and> items tx = items d \<and> seq_items tx = seq_items d \<and>
         (\<exists>c\<in>set (categories tx). cat_id c = cid \<and> cat_name c = name)"
proof -
  from assms(1) have dn: "distinct (map cat_name (categories d))" by (simp add: wf_db_def)
  from lookup_or_create_cases[OF dn assms(2)] show ?thesis
  proof
    assume "\<exists>c\<in>set (categories d). cat_name c = name \<and> cid = cat_id c \<and> tx = d"
    with assms(1) show ?thesis by auto
  next
    assume new: "name \<notin> set (map cat_name (categories d)) \<and>
          cid = next_rowid (map cat_id (categories d)) (seq_categories d) \<and>
          tx = d\<lparr>categories := categories d @ [\<lparr>cat_id = cid, cat_name = name\<rparr>],
                 seq_categories := cid\<rparr>"
    then have "cid \<notin> set (map cat_id (categories d))"
      using next_rowid_fresh[of "map cat_id (categories d)" "seq_categories d"] by simp
    with new assms(1) show ?thesis by (auto simp: wf_db_def)
  qed
qed

lemma Insert_wf:
  assumes "wf_db store"
  shows "wf_db (snd (Insert env store item))"
proof (cases "fst (Insert env store item)")
  case (Some e)
  then show ?thesis using Insert_error_store[of env store item] assms by simp
next
  case None
  then have ok: "Insert env store item = (None, snd (Insert env store item))"
    by (metis prod.collapse)
  from ok obtain tx cid where
    loc: "lookup_or_create env store (Category item) = Inr (tx, cid)" and
    ins: "insert_item tx (Name item) cid (Image_name item) = Inr (snd (Insert env store item))"
    by (rule Insert_ok_steps)
  from lookup_or_create_wf[OF assms loc] have wtx: "wf_db tx" by simp
  have "next_rowid (map item_id (items tx)) (seq_items tx) \<notin> set (map item_id (items tx))"
    by (rule next_rowid_fresh)
  with wtx insert_item_ok[OF ins] show ?thesis by (auto simp: wf_db_def)
qed

lemma Inserts_wf: "wf_db store \<Longrightarrow> wf_db (Inserts store steps)"
  by (induction store steps rule: Inserts.induct) (auto intro: Insert_wf)

lemma wf_empty_db: "wf_db empty_db"
  by (simp add: wf_db_def empty_db_def)

lemma filter_concat_fst:
  assumes "\<And>i r. r \<in> set (g i) \<Longrightarrow> fst r = i"
  shows "filter (\<lambda>r. P (fst r)) (concat (map g xs)) = concat (map g (filter P xs))"
proof (induction xs)
  case Nil then show ?case by simp
next
  case (Cons x xs)
  have "filter (\<lambda>r. P (fst r)) (g x) = (if P x then g x else [])"
    using assms[of _ x] by (auto simp: filter_empty_conv intro: filter_True)
  with Cons show ?case by simp
qed

lemma filter_join_items:
  "filter (\<lambda>r. P (fst r)) (join_items d) =
   concat (map (\<lambda>i. map (Pair i) (filter (\<lambda>c. category_id i = cat_id c) (categories d)))
               (filter P (items d)))"
  unfolding join_items_def by (rule filter_concat_fst) auto

lemma GetItemById_found:
  assumes wf: "wf_db d" and i: "i \<in> set (items d)" and c: "c \<in> set (categories d)"
      and ci: "cat_id c = category_id i" and key: "to_int key = Some (item_id i)"
      and env: "env StepQueryItem = None"
  shows "GetItemById to_int env d key = Inr (scan_item (i, c))"
proof -
  have p: "(\<lambda>i'. to_int key = Some (item_id i')) = (\<lambda>i'. item_id i' = item_id i)"
    using key by auto
  have q: "(\<lambda>c'. category_id i = cat_id c') = (\<lambda>c'. cat_id c' = cat_id c)"
    using ci by auto
  from wf i have fi: "filter (\<lambda>i'. item_id i' = item_id i) (items d) = [i]"
    by (simp add: wf_db_def filter_distinct_map)
  from wf c have fc: "filter (\<lambda>c'. cat_id c' = cat_id c) (categories d) = [c]"
    by (simp add: wf_db_def filter_distinct_map)
  have "filter (\<lambda>r. to_int key = Some (item_id (fst r))) (join_items d) = [(i, c)]"
    using filter_join_items[of "\<lambda>i'. to_int key = Some (item_id i')" d]
    by (simp add: p q fi fc)
  then show ?thesis using env by (simp add: GetItemById_def query_row_def)
qed

lemma GetItemById_missing:
  assumes "\<forall>i\<in>set (items d). to_int key \<noteq> Some (item_id i)" and "env StepQueryItem = None"
  shows "GetItemById to_int env d key = Inl ErrItemNotFound"
proof -
  have "filter (\<lambda>i'. to_int key = Some (item_id i')) (items d) = []"
    using assms(1) by (simp add: filter_empty_conv)
  then have "filter (\<lambda>r. to_int key = Some (item_id (fst r))) (join_items d) = []"
    using filter_join_items[of "\<lambda>i'. to_int key = Some (item_id i')" d] by simp
  then show ?thesis using assms(2) by (simp add: GetItemById_def query_row_def)
qed

lemma insert_item_fields:
  assumes "insert_item tx n cid img = Inr d"
  shows "categories d = categories tx"
    and "items d = items tx @ [last (items d)]"
    and "item_name (last (items d)) = n"
    and "category_id (last (items d)) = cid"
    and "image_name (last (items d)) = img"
    and "item_id (last (items d)) = next_rowid (map item_id (items tx)) (seq_items tx)"
  using insert_item_ok[OF assms] by simp_all

lemma Insert_ok_existing:
  assumes wf: "wf_db store" and ok: "Insert env store item = (None, store')"
      and c: "c \<in> set (categories store)" "cat_name c = Category item"
  shows "categories store' = categories store \<and>
         items store' = items store @ [last (items store')] \<and>
         item_name (last (items store')) = Name item \<and>
         category_id (last (items store')) = cat_id c \<and>
         image_name (last (items store')) = Image_name item"
proof -
  from ok obtain tx cid where
    loc: "lookup_or_create env store (Category item) = Inr (tx, cid)" and
    ins: "insert_item tx (Name item) cid (Image_name item) = Inr store'"
    by (rule Insert_ok_steps)
  from wf have dn: "distinct (map cat_name (categories store))" by (simp add: wf_db_def)
  from loc c(2) have "lookup_or_create env store (cat_name c) = Inr (tx, cid)" by simp
  from lookup_or_create_existing[OF dn c(1) this] have tx: "tx = store" "cid = cat_id c" by simp_all
  from insert_item_fields[OF ins] tx show ?thesis by simp
qed

lemma Insert_ok_new:
  assumes ok: "Insert env store item = (None, store')"
      and new: "Category item \<notin> set (map cat_name (categories store))"
  shows "categories store' = categories store @
            [\<lparr>cat_id = category_id (last (items store')), cat_name = Category item\<rparr>] \<and>
         items store' = items store @ [last (items store')] \<and>
         item_name (last (items store')) = Name item \<and>
         image_name (last (items store')) = Image_name item"
proof -
  from ok obtain tx cid where
    loc: "lookup_or_create env store (Category item) = Inr (tx, cid)" and
    ins: "insert_item tx (Name item) cid (Image_name item) = Inr store'"
    by (rule Insert_ok_steps)
  from lookup_or_create_new[OF new loc]
  have tx: "categories tx = categories store @ [\<lparr>cat_id = cid, cat_name = Category item\<rparr>]"
       "items tx = items store" by simp_all
  from insert_item_fields[OF ins] tx show ?thesis by simp
qed

lemma Insert_ok_category:
  assumes wf: "wf_db store" and ok: "Insert env store item = (None, store')"
  shows "\<exists>c\<in>set (categories store'). cat_id c = category_id (last (items store')) \<and>
           cat_name c = Category item"
proof (cases "Category item \<in> set (map cat_name (categories store))")
  case True
  then obtain c where c: "c \<in> set (categories store)" "cat_name c = Category item" by auto
  from Insert_ok_existing[OF wf ok c] c show ?thesis by auto
next
  case False
  from Insert_ok_new[OF ok False] show ?thesis by auto
qed

text \<open>
  \<^verbatim>\<open>Insert\<close> has no second attempt: an error of the INSERT into \<^verbatim>\<open>categories\<close> is returned
  at once, with the store as it was.
\<close>

lemma Insert_category_error_returned:
  assumes "env StepBeginTx = None"
      and "query_row env StepSelectCategory (select_category_id store (Category item)) = Inl ErrNoRows"
      and "exec env StepInsertCategory (insert_category store (Category item)) = Inl e"
  shows "Insert env store item = (Some e, store)"
  using assms by (simp add: Insert_def lookup_or_create_def)

subsection \<open>The LIKE operator and the search\<close>

lemma like_percent: "like ''%'' s"
  by (induction s) auto

lemma like_literal_prefix:
  "CHR ''%'' \<notin> set k \<Longrightarrow> CHR ''_'' \<notin> set k \<Longrightarrow>
   like (k @ ''%'') s \<longleftrightarrow> prefix (map ascii_lower k) (map ascii_lower s)"
proof (induction k arbitrary: s)
  case Nil
  then show ?case using like_percent by simp
next
  case (Cons a k)
  then show ?case by (cases s) auto
qed

lemma like_percent_suffix: "like (CHR ''%'' # ps) s \<longleftrightarrow> (\<exists>t. suffix t s \<and> like ps t)"
proof (induction s)
  case Nil
  then show ?case by (cases ps) auto
next
  case (Cons c cs)
  have "like (CHR ''%'' # ps) (c # cs) \<longleftrightarrow> like ps (c # cs) \<or> like (CHR ''%'' # ps) cs"
    by simp
  also have "\<dots> \<longleftrightarrow> like ps (c # cs) \<or> (\<exists>t. suffix t cs \<and> like ps t)"
    using Cons by simp
  also have "\<dots> \<longleftrightarrow> (\<exists>t. suffix t (c # cs) \<and> like ps t)"
    by (auto simp: suffix_Cons)
  finally show ?case .
qed

lemma sublist_map_suffix_prefix:
  "sublist (map f k) (map f s) \<longleftrightarrow> (\<exists>t. suffix t s \<and> prefix (map f k) (map f t))"
proof
  assume "sublist (map f k) (map f s)"
  then obtain ps ss where e: "map f s = ps @ map f k @ ss" by (auto simp: sublist_def)
  let ?t = "drop (length ps) s"
  have "suffix ?t s" by (rule suffix_drop)
  moreover have "map f ?t = map f k @ ss"
    using e by (metis append_eq_conv_conj drop_map)
  ultimately show "\<exists>t. suffix t s \<and> prefix (map f k) (map f t)" by (auto simp: prefix_def)
next
  assume "\<exists>t. suffix t s \<and> prefix (map f k) (map f t)"
  then obtain t ps ss where "s = ps @ t" "map f t = map f k @ ss"
    by (auto simp: suffix_def prefix_def)
  then have "map f s = map f ps @ map f k @ ss" by simp
  then show "sublist (map f k) (map f s)" unfolding sublist_def by blast
qed

lemma like_literal_keyword:
  assumes "CHR ''%'' \<notin> set keyword" "CHR ''_'' \<notin> set keyword"
  shows "like (''%'' @ keyword @ ''%'') name \<longleftrightarrow> contains_keyword keyword name"
  using assms
  by (simp add: like_percent_suffix like_literal_prefix sublist_map_suffix_prefix
        contains_keyword_def)

lemma scan_rows_no_fault:
  "(\<And>k. env (StepScan k) = None) \<Longrightarrow> scan_rows env k rows acc = Inr (acc @ map scan_item rows)"
  by (induction rows arbitrary: k acc) auto

text \<open>
  For a keyword without \<^verbatim>\<open>%\<close> and \<^verbatim>\<open>_\<close> and an engine without faults, the search returns
  exactly the items whose name contains the keyword, in the order of the item table.
\<close>

lemma search_literal_keyword:
  assumes "CHR ''%'' \<notin> set keyword" "CHR ''_'' \<notin> set keyword"
  shows "SearchItemsByKeyword no_faults d keyword =
           Inr (map scan_item
                  (filter (\<lambda>r. contains_keyword keyword (item_name (fst r))) (join_items d)))"
  using assms
  by (simp add: SearchItemsByKeyword_def no_faults_def scan_rows_no_fault
        like_literal_keyword[symmetric] del: append.simps)

lemma search_examples:
  "SearchItemsByKeyword no_faults shirts_db ''shirt'' =
     Inr [\<lparr>ID = 1, Name = ''Blue Shirt'', Category = ''Clothes'', Image_name = ''a.jpg''\<rparr>,
          \<lparr>ID = 2, Name = ''Shirt'', Category = ''Clothes'', Image_name = ''b.jpg''\<rparr>]"
  "SearchItemsByKeyword no_faults shirts_db ''zzz'' = Inr []"
  by code_simp+

subsection \<open>The foreign key is kept by Insert\<close>

lemma Insert_ref_integrity:
  assumes wf: "wf_db store" and ri: "ref_integrity store"
  shows "ref_integrity (snd (Insert env store item))"
proof (cases "fst (Insert env store item)")
  case (Some e)
  then show ?thesis using Insert_error_store[of env store item] ri by simp
next
  case None
  then have ok: "Insert env store item = (None, snd (Insert env store item))"
    by (metis prod.collapse)
  let ?s = "snd (Insert env store item)"
  from Insert_ok_category[OF wf ok]
  have new: "category_id (last (items ?s)) \<in> set (map cat_id (categories ?s))" by force
  have its: "items ?s = items store @ [last (items ?s)]"
    and sub: "set (categories store) \<subseteq> set (categories ?s)"
    by (cases "Category item \<in> set (map cat_name (categories store))";
        use Insert_ok_existing[OF wf ok] Insert_ok_new[OF ok] in auto)+
  from ri sub have "list_all (\<lambda>i. category_id i \<in> set (map cat_id (categories ?s))) (items store)"
    by (auto simp: ref_integrity_def list_all_iff)
  with new have all: "list_all (\<lambda>i. category_id i \<in> set (map cat_id (categories ?s)))
                       (items store @ [last (items ?s)])"
    by simp
  show ?thesis unfolding ref_integrity_def by (subst its) (rule all)
qed

lemma Inserts_ref_integrity:
  "wf_db store \<Longrightarrow> ref_integrity store \<Longrightarrow> ref_integrity (Inserts store steps)"
  by (induction store steps rule: Inserts.induct) (auto intro: Insert_ref_integrity Insert_wf)

section \<open>Properties of the path functions\<close>

lemma split_sep_nonempty: "split_sep s \<noteq> []"
  by (induction s) (auto split: list.splits)

lemma split_sep_no_sep: "c \<in> set (split_sep s) \<Longrightarrow> CHR ''/'' \<notin> set c"
  by (induction s arbitrary: c) (auto split: list.splits if_splits)

lemma join_split_sep: "join_sep (split_sep s) = s"
proof (induction s)
  case Nil then show ?case by simp
next
  case (Cons a s)
  obtain x xs where x: "split_sep s = x # xs" using split_sep_nonempty[of s] by (cases "split_sep s") auto
  show ?case
  proof (cases "a = CHR ''/''")
    case True
    with Cons x show ?thesis by simp
  next
    case False
    with Cons x show ?thesis by (cases xs) auto
  qed
qed

lemma split_sep_single: "CHR ''/'' \<notin> set x \<Longrightarrow> split_sep x = [x]"
  by (induction x) auto

lemma split_sep_append: "CHR ''/'' \<notin> set x \<Longrightarrow> split_sep (x @ CHR ''/'' # s) = x # split_sep s"
  by (induction x) auto

lemma split_join_sep:
  "cs \<noteq> [] \<Longrightarrow> \<forall>c\<in>set cs. CHR ''/'' \<notin> set c \<Longrightarrow> split_sep (join_sep cs) = cs"
  by (induction cs rule: join_sep.induct) (auto simp: split_sep_single split_sep_append)

lemma split_sep_snoc:
  "CHR ''/'' \<notin> set x \<Longrightarrow> split_sep (s @ CHR ''/'' # x) = split_sep s @ [x]"
proof (induction s)
  case Nil then show ?case by (simp add: split_sep_single)
next
  case (Cons a s)
  then show ?case using split_sep_nonempty[of s] by (cases "split_sep s") auto
qed

lemma join_sep_snoc: "join_sep (cs @ [x]) = (if cs = [] then x else join_sep cs @ CHR ''/'' # x)"
  by (induction cs rule: join_sep.induct) auto

lemma clean_inv_Nil: "clean_inv rooted []"
  by (simp add: clean_inv_def)

lemma clean_step_inv:
  assumes "clean_inv rooted out" "CHR ''/'' \<notin> set c"
  shows "clean_inv rooted (clean_step rooted out c)"
proof -
  from assms(1) obtain k ns where o: "out = replicate k ''..'' @ ns" "list_all normal ns" "rooted \<longrightarrow> k = 0"
    by (auto simp: clean_inv_def)
  consider "c = [] \<or> c = ''.''" | "c = ''..''" | "normal c"
    using assms(2) by (auto simp: normal_def)
  then show ?thesis
  proof cases
    case 1
    then show ?thesis using assms(1) by (auto simp: clean_step_def)
  next
    case 2
    show ?thesis
    proof (cases "ns = []")
      case True
      have nb: "\<not> (out \<noteq> [] \<and> last out \<noteq> ''..'')"
        using True o(1) by (cases k) auto
      have "clean_step rooted out ''..'' =
              (if out \<noteq> [] \<and> last out \<noteq> ''..'' then butlast out
               else if rooted then out else out @ [''..''])"
        by (simp add: clean_step_def)
      with nb have cs: "clean_step rooted out ''..'' = (if rooted then out else out @ [''..''])"
        by (simp only: if_False)
      show ?thesis
      proof (cases rooted)
        case True
        with cs 2 assms(1) show ?thesis by simp
      next
        case False
        have "out @ [''..''] = replicate (Suc k) ''..'' @ []"
          using o(1) \<open>ns = []\<close> by (simp add: replicate_append_same)
        with cs 2 False have "clean_step rooted out c = replicate (Suc k) ''..'' @ []"
          by simp
        then show ?thesis using False unfolding clean_inv_def
          by (intro exI[of _ "Suc k"] exI[of _ "[]"]) simp
      qed
    next
      case False
      then have l: "last out = last ns" "butlast out = replicate k ''..'' @ butlast ns"
        using o by (simp_all add: butlast_append)
      from False o(2) have "normal (last ns)" by (simp add: list_all_iff)
      then have "last ns \<noteq> ''..''" by (auto simp: normal_def)
      moreover have "list_all normal (butlast ns)"
        using o(2) by (auto simp: list_all_iff dest: in_set_butlastD)
      ultimately show ?thesis using 2 o l False
        unfolding clean_inv_def clean_step_def by auto
    qed
  next
    case 3
    then have "clean_step rooted out c = replicate k ''..'' @ (ns @ [c])"
      using o by (auto simp: clean_step_def normal_def)
    moreover have "list_all normal (ns @ [c])" using o 3 by simp
    ultimately show ?thesis using o(3) unfolding clean_inv_def by blast
  qed
qed

lemma foldl_clean_inv:
  assumes "clean_inv rooted out" "\<forall>c\<in>set cs. CHR ''/'' \<notin> set c"
  shows "clean_inv rooted (foldl (clean_step rooted) out cs)"
  using assms by (induction cs arbitrary: out) (auto intro: clean_step_inv)

lemma clean_elems_inv: "clean_inv rooted (foldl (clean_step rooted) [] (split_sep s))"
  by (rule foldl_clean_inv) (auto simp: clean_inv_Nil dest: split_sep_no_sep)

lemma clean_inv_elems:
  assumes "clean_inv rooted out" "c \<in> set out"
  shows "c \<noteq> []" "CHR ''/'' \<notin> set c" "c \<noteq> ''.''"
proof -
  from assms(1) obtain k ns where o: "out = replicate k ''..'' @ ns" "list_all normal ns"
    unfolding clean_inv_def by blast
  from assms(2) o(1) have "c = ''..'' \<or> c \<in> set ns" by auto
  then have "c = ''..'' \<or> normal c" using o(2) by (auto simp: list_all_iff)
  then show "c \<noteq> []" "CHR ''/'' \<notin> set c" "c \<noteq> ''.''"
    unfolding normal_def by auto
qed

lemma clean_inv_rooted:
  assumes "clean_inv True out"
  shows "list_all normal out"
  using assms by (auto simp: clean_inv_def)

lemma snoc_eq_replicate:
  assumes "xs @ [x] = replicate k d"
  shows "k \<noteq> 0" "xs = replicate (k - 1) d" "x = d"
proof -
  from assms show "k \<noteq> 0" by (cases k) auto
  then obtain n where k: "k = Suc n" by (cases k) auto
  have "replicate (Suc n) d = replicate n d @ [d]" by (simp add: replicate_append_same)
  with assms k have "xs @ [x] = replicate n d @ [d]" by simp
  then show "xs = replicate (k - 1) d" "x = d" using k by simp_all
qed

lemma snoc_eq_append:
  assumes "xs @ [x] = ys @ ns" "ns \<noteq> []"
  shows "xs = ys @ butlast ns" "x = last ns"
proof -
  from assms(2) have "ns = butlast ns @ [last ns]" by simp
  with assms(1) have "xs @ [x] = (ys @ butlast ns) @ [last ns]" by (metis append_assoc)
  then show "xs = ys @ butlast ns" "x = last ns" by simp_all
qed

lemma clean_inv_butlast: "clean_inv rooted (xs @ [x]) \<Longrightarrow> clean_inv rooted xs"
proof -
  assume "clean_inv rooted (xs @ [x])"
  then obtain k ns where o: "xs @ [x] = replicate k ''..'' @ ns" "list_all normal ns" "rooted \<longrightarrow> k = 0"
    by (auto simp: clean_inv_def)
  show ?thesis
  proof (cases "ns = []")
    case True
    with o(1) have "xs @ [x] = replicate k ''..''" by simp
    from snoc_eq_replicate[OF this] have "xs = replicate (k - 1) ''..'' @ []" by simp
    with o(3) show ?thesis unfolding clean_inv_def
      by (intro exI[of _ "k - 1"] exI[of _ "[]"]) simp
  next
    case False
    from snoc_eq_append[OF o(1) False] have "xs = replicate k ''..'' @ butlast ns" by simp
    moreover have "list_all normal (butlast ns)"
      using o(2) by (auto simp: list_all_iff dest: in_set_butlastD)
    ultimately show ?thesis using o(3) unfolding clean_inv_def by blast
  qed
qed

lemma clean_step_clean:
  assumes "clean_inv rooted (xs @ [x])"
  shows "clean_step rooted xs x = xs @ [x]"
proof -
  from assms obtain k ns where o: "xs @ [x] = replicate k ''..'' @ ns" "list_all normal ns" "rooted \<longrightarrow> k = 0"
    by (auto simp: clean_inv_def)
  show ?thesis
  proof (cases "ns = []")
    case True
    with o(1) have "xs @ [x] = replicate k ''..''" by simp
    from snoc_eq_replicate[OF this]
    have x: "x = ''..''" and xs: "xs = replicate (k - 1) ''..''" and k: "k \<noteq> 0" by simp_all
    from xs have nb: "\<not> (xs \<noteq> [] \<and> last xs \<noteq> ''..'')" by (cases "k - 1") auto
    from k o(3) have nr: "\<not> rooted" by simp
    have "clean_step rooted xs ''..'' =
            (if xs \<noteq> [] \<and> last xs \<noteq> ''..'' then butlast xs
             else if rooted then xs else xs @ [''..''])"
      by (simp add: clean_step_def)
    with nb nr have "clean_step rooted xs ''..'' = xs @ [''..'']"
      by (simp only: if_False)
    with x show ?thesis by simp
  next
    case False
    from snoc_eq_append[OF o(1) False] have "x = last ns" by simp
    with False o(2) have "normal x" by (simp add: list_all_iff)
    then show ?thesis by (simp add: clean_step_def normal_def)
  qed
qed

lemma foldl_clean_clean: "clean_inv rooted l \<Longrightarrow> foldl (clean_step rooted) [] l = l"
proof (induction l rule: rev_induct)
  case Nil then show ?case by simp
next
  case (snoc x xs)
  from clean_inv_butlast[OF snoc.prems] snoc.IH have "foldl (clean_step rooted) [] xs = xs" by simp
  with clean_step_clean[OF snoc.prems] show ?case by simp
qed

lemma join_sep_Cons: "join_sep (x # xs) = (if xs = [] then x else x @ CHR ''/'' # join_sep xs)"
  by (cases xs) auto

lemma join_sep_nonempty:
  assumes "clean_inv rooted out" "out \<noteq> []"
  shows "join_sep out \<noteq> []" "hd (join_sep out) \<noteq> CHR ''/''"
proof -
  from assms(2) obtain x xs where out: "out = x # xs" by (cases out) auto
  with clean_inv_elems[OF assms(1), of x] have x: "x \<noteq> []" "CHR ''/'' \<notin> set x" by simp_all
  then have "hd x \<noteq> CHR ''/''" by (cases x) auto
  with x out show "join_sep out \<noteq> []" "hd (join_sep out) \<noteq> CHR ''/''"
    by (simp_all add: join_sep_Cons)
qed

lemma Clean_nonempty: "Clean s \<noteq> []"
  using join_sep_nonempty(1)[OF clean_elems_inv, of False s]
  by (auto simp: Clean_def Let_def)

lemma clean_step_skip: "clean_step rooted out [] = out"
  by (simp add: clean_step_def)

lemma Clean_is_clean: "is_clean (Clean s)"
proof (cases "s = []")
  case True
  then show ?thesis by (simp add: Clean_def is_clean_def)
next
  case False
  show ?thesis
  proof (cases "hd s = CHR ''/''")
    case True
    from clean_inv_rooted[OF clean_elems_inv[of True s]] True False show ?thesis
      unfolding is_clean_def Clean_def Let_def by auto
  next
    case r: False
    from clean_elems_inv[of False s] r False show ?thesis
      unfolding is_clean_def Clean_def Let_def by auto
  qed
qed

lemma normal_list_inv: "list_all normal ns \<Longrightarrow> clean_inv rooted ns"
  unfolding clean_inv_def by (intro exI[of _ 0] exI[of _ ns]) simp

lemma normal_no_sep: "list_all normal ns \<Longrightarrow> \<forall>c\<in>set ns. CHR ''/'' \<notin> set c"
  by (auto simp: list_all_iff normal_def)

lemma elements_rooted:
  assumes "list_all normal ns"
  shows "elements (CHR ''/'' # join_sep ns) = [] # ns"
proof (cases "ns = []")
  case True
  then show ?thesis by (simp add: elements_def)
next
  case False
  from join_sep_nonempty(1)[OF normal_list_inv[OF assms] False]
  have "CHR ''/'' # join_sep ns \<noteq> ''/''" by simp
  with split_join_sep[OF False normal_no_sep[OF assms]] show ?thesis
    by (simp add: elements_def)
qed

lemma split_sep_rooted:
  assumes "list_all normal ns"
  shows "foldl (clean_step True) [] (split_sep (CHR ''/'' # join_sep ns)) = ns"
proof (cases "ns = []")
  case True
  then show ?thesis by (simp add: clean_step_skip)
next
  case False
  from split_join_sep[OF False normal_no_sep[OF assms]]
  have "split_sep (CHR ''/'' # join_sep ns) = [] # ns" by simp
  with foldl_clean_clean[OF normal_list_inv[OF assms], of True] show ?thesis
    by (simp add: clean_step_skip)
qed

lemma elements_unrooted:
  assumes "clean_inv False out" "out \<noteq> []"
  shows "elements (join_sep out) = out" "split_sep (join_sep out) = out"
proof -
  have ns: "\<forall>c\<in>set out. CHR ''/'' \<notin> set c"
    using clean_inv_elems(2)[OF assms(1)] by blast
  from split_join_sep[OF assms(2) ns] show s: "split_sep (join_sep out) = out" .
  from join_sep_nonempty[OF assms] have "join_sep out \<noteq> []" "join_sep out \<noteq> ''/''" by auto
  with s show "elements (join_sep out) = out" by (simp add: elements_def)
qed

lemma Clean_clean: "is_clean p \<Longrightarrow> Clean p = p"
  unfolding is_clean_def
proof (elim disjE exE conjE)
  assume "p = ''.''"
  then show ?thesis by (simp add: Clean_def clean_step_def)
next
  fix ns assume "list_all normal ns" "p = CHR ''/'' # join_sep ns"
  with split_sep_rooted[of ns] show ?thesis by (simp add: Clean_def)
next
  fix out assume o: "out \<noteq> []" "clean_inv False out" "p = join_sep out"
  from join_sep_nonempty[OF o(2,1)] elements_unrooted(2)[OF o(2,1)] foldl_clean_clean[OF o(2)] o
  show ?thesis by (simp add: Clean_def)
qed

lemma Clean_idem: "Clean (Clean s) = Clean s"
  by (rule Clean_clean[OF Clean_is_clean])

lemma is_clean_nonempty: "is_clean p \<Longrightarrow> p \<noteq> []"
  using Clean_clean Clean_nonempty by metis

lemma Rel_clean:
  assumes "is_clean p"
  shows "Rel dir p =
     (if p = Clean dir then Inr ''.''
      else if (hd (Clean dir) = CHR ''/'') \<noteq> (hd p = CHR ''/'') then Inl RelError
      else (case common (root_elements dir) (elements p) of
              (bs, ts, stop) \<Rightarrow>
                if stop = ''..'' then Inl RelError
                else if bs \<noteq> [] then
                  Inr (join_sep (replicate (length bs) ''..'' @
                                 (if ts \<noteq> [] then [join_sep ts] else [])))
                else Inr (join_sep ts)))"
proof -
  have p: "Clean p = p" "p \<noteq> []" using assms Clean_clean is_clean_nonempty by auto
  have b: "Clean dir \<noteq> []" by (rule Clean_nonempty)
  show ?thesis
  proof (cases "Clean dir = ''.''")
    case True
    with p show ?thesis by (simp add: Rel_def root_elements_def elements_def)
  next
    case False
    with p b show ?thesis by (simp add: Rel_def root_elements_def)
  qed
qed

lemma common_stop: "common bs0 ts0 = (bs, ts, stop) \<Longrightarrow> bs = [] \<Longrightarrow> ts0 = bs0 @ ts"
  by (induction bs0 ts0 rule: common.induct) (auto split: if_splits)

lemma common_prefix: "common xs (xs @ ts) = ([], ts, [])"
  by (induction xs) auto

lemma join_sep_dots: "prefix ''..'' (join_sep (''..'' # rest))"
  by (simp add: join_sep_Cons)

lemma split_sep_empty_elem: "split_sep s = [[]] \<Longrightarrow> s = []"
  using join_split_sep[of s] by simp

lemma elements_Nil_iff: "elements q = [] \<longleftrightarrow> q = []"
  using split_sep_nonempty[of q] by (simp add: elements_def)

lemma elements_root_iff: "elements q = [[]] \<longleftrightarrow> q = ''/''"
  using split_sep_empty_elem[of q] by (auto simp: elements_def)

lemma elements_inj: "elements p = elements q \<Longrightarrow> p = q"
proof -
  assume e: "elements p = elements q"
  consider "p = []" | "p = ''/''" | "p \<noteq> []" "p \<noteq> ''/''" by blast
  then show ?thesis
  proof cases
    case 1
    then have "elements q = []" using e by (simp add: elements_def)
    with 1 show ?thesis by (simp add: elements_Nil_iff)
  next
    case 2
    then have "elements q = [[]]" using e by (simp add: elements_def)
    with 2 show ?thesis by (simp add: elements_root_iff)
  next
    case 3
    then have "elements q \<noteq> []" "elements q \<noteq> [[]]"
      using e elements_Nil_iff[of p] elements_root_iff[of p] by simp_all
    then have q: "q \<noteq> []" "q \<noteq> ''/''"
      using elements_Nil_iff[of q] elements_root_iff[of q] by auto
    with 3 e have "split_sep p = split_sep q" by (simp add: elements_def)
    then show ?thesis using join_split_sep by metis
  qed
qed

lemma rooted_elements: "p \<noteq> [] \<Longrightarrow> hd p = CHR ''/'' \<longleftrightarrow> hd (elements p) = []"
proof (cases p)
  case Nil
  assume "p \<noteq> []" with Nil show ?thesis by simp
next
  case (Cons c cs)
  show ?thesis
  proof (cases "p = ''/''")
    case True
    then show ?thesis by (simp add: elements_def)
  next
    case False
    with Cons show ?thesis
      using split_sep_nonempty[of cs] by (cases "split_sep cs") (auto simp: elements_def)
  qed
qed

lemma suffix_after_dots:
  assumes "replicate k d @ ns = r @ ts" "ts \<noteq> []" "hd ts \<noteq> d"
  shows "\<exists>m. ns = m @ ts"
proof -
  from assms(1) consider us where "replicate k d = r @ us" "us @ ns = ts"
    | us where "replicate k d @ us = r" "ns = us @ ts"
    by (auto simp: append_eq_append_conv2)
  then show ?thesis
  proof cases
    case 1
    show ?thesis
    proof (cases us)
      case Nil
      with 1 show ?thesis by simp
    next
      case (Cons u us')
      with 1(1) have "u \<in> set (replicate k d)" by (metis in_set_conv_decomp)
      then have "u = d" by simp
      with Cons 1(2) assms(3) show ?thesis by auto
    qed
  next
    case 2
    then show ?thesis by blast
  qed
qed

lemma root_elements_Nil_iff: "root_elements dir = [] \<longleftrightarrow> Clean dir = ''.''"
  using Clean_nonempty[of dir] by (simp add: root_elements_def elements_Nil_iff)

lemma clean_elements_cases:
  assumes "is_clean p"
  obtains "p = ''.''" "elements p = [''.'']"
  | ns where "list_all normal ns" "elements p = [] # ns" "hd p = CHR ''/''"
  | k ns where "list_all normal ns" "elements p = replicate k ''..'' @ ns" "hd p \<noteq> CHR ''/''"
               "p \<noteq> ''.''"
proof -
  from assms consider "p = ''.''"
    | ns where "list_all normal ns" "p = CHR ''/'' # join_sep ns"
    | out where "out \<noteq> []" "clean_inv False out" "p = join_sep out"
    unfolding is_clean_def by blast
  then show ?thesis
  proof cases
    case 1
    then show ?thesis using that(1) by (simp add: elements_def)
  next
    case 2
    then show ?thesis using that(2)[of ns] elements_rooted[of ns] by simp
  next
    case 3
    from 3(2) obtain k ns where o: "out = replicate k ''..'' @ ns" "list_all normal ns"
      unfolding clean_inv_def by blast
    from elements_unrooted(1)[OF 3(2,1)] 3(3) have e: "elements p = out" by simp
    have "p \<noteq> ''.''"
    proof
      assume "p = ''.''"
      then have "elements p = [''.'']" by (simp add: elements_def)
      with e have "out = [''.'']" by simp
      then have "''.'' \<in> set out" by simp
      with clean_inv_elems(3)[OF 3(2)] show False by blast
    qed
    with that(3)[of ns k] o e join_sep_nonempty(2)[OF 3(2,1)] 3(3) show ?thesis by simp
  qed
qed

lemma Rel_inside:
  assumes c: "is_clean p" and r: "Rel dir p = Inr rel" and np: "\<not> prefix ''..'' rel"
      and ne: "p \<noteq> Clean dir"
  shows "\<exists>ts. ts \<noteq> [] \<and> list_all normal ts \<and> elements p = root_elements dir @ ts \<and>
              rel = join_sep ts"
proof -
  obtain bs ts stop where cm: "common (root_elements dir) (elements p) = (bs, ts, stop)"
    by (cases "common (root_elements dir) (elements p)") auto
  from r ne cm have rt: "(hd (Clean dir) = CHR ''/'') = (hd p = CHR ''/'')"
    by (auto simp: Rel_clean[OF c] split: if_splits)
  have bs: "bs = []"
  proof (rule ccontr)
    assume "bs \<noteq> []"
    then obtain n where "replicate (length bs) ''..'' = ''..'' # replicate n ''..''"
      by (cases bs) auto
    with r ne cm rt \<open>bs \<noteq> []\<close> have "prefix ''..'' rel"
      using join_sep_dots by (auto simp: Rel_clean[OF c] split: if_splits)
    with np show False by simp
  qed
  with r ne cm rt have rel: "rel = join_sep ts"
    by (auto simp: Rel_clean[OF c] split: if_splits)
  from common_stop[OF cm bs] have e: "elements p = root_elements dir @ ts" .
  have tn: "ts \<noteq> []"
  proof
    assume "ts = []"
    with e have ee: "elements p = root_elements dir" by simp
    show False
    proof (cases "Clean dir = ''.''")
      case True
      with ee have "elements p = []" by (simp add: root_elements_def)
      with is_clean_nonempty[OF c] show False by (simp add: elements_Nil_iff)
    next
      case False
      with ee have "elements p = elements (Clean dir)" by (simp add: root_elements_def)
      with ne elements_inj show False by blast
    qed
  qed
  have hd: "hd ts \<noteq> ''..''"
  proof
    assume "hd ts = ''..''"
    with tn have "ts = ''..'' # tl ts" by (cases ts) auto
    with join_sep_dots[of "tl ts"] rel np show False by simp
  qed
  have "list_all normal ts"
  using c proof (cases rule: clean_elements_cases)
    case 1
    with e tn have "root_elements dir = []"
      by (cases "root_elements dir") (auto simp: Cons_eq_append_conv)
    with 1 ne show ?thesis by (simp add: root_elements_Nil_iff)
  next
    case (2 ns)
    with rt have "hd (Clean dir) = CHR ''/''" by simp
    then have "Clean dir \<noteq> ''.''" by auto
    then have re: "root_elements dir = elements (Clean dir)" by (simp add: root_elements_def)
    from rooted_elements[OF Clean_nonempty, of dir] \<open>hd (Clean dir) = CHR ''/''\<close>
    have "hd (elements (Clean dir)) = []" by simp
    moreover have "elements (Clean dir) \<noteq> []" using Clean_nonempty by (simp add: elements_Nil_iff)
    ultimately obtain r' where "root_elements dir = [] # r'"
      using re by (cases "elements (Clean dir)") auto
    with e 2(2) have "ns = r' @ ts" by simp
    with 2(1) show ?thesis by simp
  next
    case (3 k ns)
    from e 3(2) have "replicate k ''..'' @ ns = root_elements dir @ ts" by simp
    from suffix_after_dots[OF this tn hd] 3(1) show ?thesis by auto
  qed
  with tn e rel show ?thesis by blast
qed

lemma inside_Rel:
  assumes c: "is_clean p" and e: "elements p = root_elements dir @ ts" and tn: "ts \<noteq> []"
      and nm: "list_all normal ts"
  shows "Rel dir p = Inr (join_sep ts)" "p \<noteq> Clean dir"
proof -
  show ne: "p \<noteq> Clean dir"
  proof
    assume eq: "p = Clean dir"
    show False
    proof (cases "Clean dir = ''.''")
      case True
      with eq e have "ts = [''.'']" by (simp add: root_elements_def elements_def)
      with nm show False by (simp add: normal_def)
    next
      case False
      with eq e tn show False by (simp add: root_elements_def)
    qed
  qed
  have pn: "p \<noteq> []" by (rule is_clean_nonempty[OF c])
  have rt: "(hd (Clean dir) = CHR ''/'') = (hd p = CHR ''/'')"
  proof (cases "Clean dir = ''.''")
    case True
    with e tn have "hd (elements p) = hd ts" by (simp add: root_elements_def)
    moreover from tn nm have "hd ts \<noteq> []" by (cases ts) (auto simp: normal_def)
    ultimately show ?thesis using True rooted_elements[OF pn] by simp
  next
    case False
    then have re: "root_elements dir = elements (Clean dir)" by (simp add: root_elements_def)
    moreover have "elements (Clean dir) \<noteq> []" using Clean_nonempty by (simp add: elements_Nil_iff)
    ultimately have "hd (elements p) = hd (elements (Clean dir))" using e by simp
    then show ?thesis using rooted_elements[OF pn] rooted_elements[OF Clean_nonempty, of dir] by simp
  qed
  from ne rt e common_prefix[of "root_elements dir" ts]
  show "Rel dir p = Inr (join_sep ts)" by (simp add: Rel_clean[OF c])
qed

lemma Join_pair:
  "Join [a, b] = (if a \<noteq> [] then Clean (a @ CHR ''/'' # b) else if b \<noteq> [] then Clean b else [])"
  by simp

lemma Join_Clean_is_clean: "is_clean (Join [dir, Clean name])"
  using Clean_nonempty[of name] Clean_is_clean by (simp add: Join_pair)

lemma inside_root_iff:
  "inside_root dir p \<longleftrightarrow>
     (\<exists>ts. ts \<noteq> [] \<and> list_all normal ts \<and> elements p = root_elements dir @ ts)"
  unfolding inside_root_def relative_path_def
  by (auto simp: prefix_def)

lemma relative_path_inside:
  "elements p = root_elements dir @ ts \<Longrightarrow> relative_path dir p = ts"
  by (simp add: relative_path_def)

lemma guard_iff:
  assumes c: "is_clean p"
  shows "(\<exists>rel. Rel dir p = Inr rel \<and> \<not> prefix ''..'' rel) \<longleftrightarrow>
         p = Clean dir \<or> (inside_root dir p \<and> \<not> prefix ''..'' (join_sep (relative_path dir p)))"
proof
  assume "\<exists>rel. Rel dir p = Inr rel \<and> \<not> prefix ''..'' rel"
  then obtain rel where r: "Rel dir p = Inr rel" "\<not> prefix ''..'' rel" by blast
  show "p = Clean dir \<or> (inside_root dir p \<and> \<not> prefix ''..'' (join_sep (relative_path dir p)))"
  proof (cases "p = Clean dir")
    case True then show ?thesis by simp
  next
    case False
    from Rel_inside[OF c r False] obtain ts where
      t: "ts \<noteq> []" "list_all normal ts" "elements p = root_elements dir @ ts" "rel = join_sep ts"
      by blast
    then have "inside_root dir p" unfolding inside_root_iff by blast
    with t r(2) relative_path_inside[OF t(3)] show ?thesis by simp
  qed
next
  assume a: "p = Clean dir \<or> (inside_root dir p \<and> \<not> prefix ''..'' (join_sep (relative_path dir p)))"
  show "\<exists>rel. Rel dir p = Inr rel \<and> \<not> prefix ''..'' rel"
  proof (cases "p = Clean dir")
    case True
    with Rel_clean[OF c, of dir] have "Rel dir p = Inr ''.''" by simp
    then show ?thesis by simp
  next
    case False
    with a have i: "inside_root dir p" and np: "\<not> prefix ''..'' (join_sep (relative_path dir p))"
      by simp_all
    from i obtain ts where
      t: "ts \<noteq> []" "list_all normal ts" "elements p = root_elements dir @ ts"
      unfolding inside_root_iff by blast
    from inside_Rel(1)[OF c t(3,1,2)] np relative_path_inside[OF t(3)] show ?thesis by simp
  qed
qed

lemma buildImagePath_guard:
  assumes "imgPath = Join [dir, Clean name]"
  shows "buildImagePath dir fs name =
     (if \<not> (imgPath = Clean dir \<or>
              (inside_root dir imgPath \<and> \<not> prefix ''..'' (join_sep (relative_path dir imgPath))))
        then ([], Some (ErrInvalidPath imgPath))
      else if \<not> image_suffix imgPath then ([], Some (ErrSuffix imgPath))
      else if fs imgPath = None then (imgPath, Some ErrImageNotFound)
      else (imgPath, None))"
proof -
  define G where "G \<longleftrightarrow> imgPath = Clean dir \<or>
     (inside_root dir imgPath \<and> \<not> prefix ''..'' (join_sep (relative_path dir imgPath)))"
  define rest where "rest =
     (if \<not> image_suffix imgPath then ([], Some (ErrSuffix imgPath))
      else if fs imgPath = None then (imgPath, Some ErrImageNotFound)
      else (imgPath, None))"
  have c: "is_clean imgPath" using assms Join_Clean_is_clean by simp
  have g: "(\<exists>rel. Rel dir imgPath = Inr rel \<and> \<not> prefix ''..'' rel) \<longleftrightarrow> G"
    unfolding G_def by (rule guard_iff[OF c])
  have b: "buildImagePath dir fs name =
      (case Rel dir imgPath of
         Inl err \<Rightarrow> ([], Some (ErrInvalidPath imgPath))
       | Inr rel \<Rightarrow> if prefix ''..'' rel then ([], Some (ErrInvalidPath imgPath)) else rest)"
    unfolding rest_def buildImagePath_def image_suffix_def assms[symmetric] Let_def
    by (simp split: sum.splits)
  have "buildImagePath dir fs name = (if \<not> G then ([], Some (ErrInvalidPath imgPath)) else rest)"
  proof (cases "Rel dir imgPath")
    case (Inl e)
    with g have "\<not> G" by simp
    with Inl b show ?thesis by simp
  next
    case (Inr rel)
    with g have "G \<longleftrightarrow> \<not> prefix ''..'' rel" by simp
    with Inr b show ?thesis by simp
  qed
  then show ?thesis unfolding G_def rest_def .
qed

lemma clean_step_normal: "normal x \<Longrightarrow> clean_step rooted out x = out @ [x]"
  by (simp add: clean_step_def normal_def)

lemma clean_inv_snoc_normal:
  assumes "clean_inv rooted out" "normal x"
  shows "clean_inv rooted (out @ [x])"
  using clean_step_inv[OF assms(1), of x] assms(2)
  by (simp add: clean_step_normal normal_def)

lemma normal_is_clean: "normal x \<Longrightarrow> is_clean x"
proof -
  assume n: "normal x"
  have "clean_inv False ([] @ [x])" by (rule clean_inv_snoc_normal[OF clean_inv_Nil n])
  then show ?thesis unfolding is_clean_def
    by (intro disjI2 exI[of _ "[x]"]) simp
qed

lemma Join_file_elements:
  assumes n: "normal x"
  shows "elements (Join [dir, x]) \<noteq> [] \<and> last (elements (Join [dir, x])) = x"
proof (cases "dir = []")
  case True
  from n have x: "x \<noteq> []" "CHR ''/'' \<notin> set x" "x \<noteq> ''/''" by (auto simp: normal_def)
  from True x have "Join [dir, x] = x" using Clean_clean[OF normal_is_clean[OF n]] by simp
  with x show ?thesis by (simp add: elements_def split_sep_single)
next
  case False
  let ?s = "dir @ CHR ''/'' # x"
  let ?r = "hd ?s = CHR ''/''"
  let ?out = "foldl (clean_step ?r) [] (split_sep dir)"
  from n have x: "CHR ''/'' \<notin> set x" by (simp add: normal_def)
  have inv: "clean_inv ?r (?out @ [x])"
    by (rule clean_inv_snoc_normal[OF clean_elems_inv n])
  have out: "foldl (clean_step ?r) [] (split_sep ?s) = ?out @ [x]"
    by (simp add: split_sep_snoc[OF x] clean_step_normal[OF n])
  have j: "Join [dir, x] = Clean ?s" using False by simp
  show ?thesis
  proof (cases ?r)
    case True
    then have "clean_inv True (?out @ [x])" using inv by simp
    from elements_rooted[OF clean_inv_rooted[OF this]] True out j show ?thesis
      by (simp add: Clean_def)
  next
    case r: False
    then have "clean_inv False (?out @ [x])" using inv by simp
    from elements_unrooted(1)[OF this] r out j show ?thesis
      by (simp add: Clean_def)
  qed
qed

lemma Join_images: "normal x \<Longrightarrow> Join [''images'', x] = ''images/'' @ x"
proof -
  assume n: "normal x"
  then have x: "CHR ''/'' \<notin> set x" by (simp add: normal_def)
  have "split_sep (''images'' @ CHR ''/'' # x) = split_sep ''images'' @ [x]"
    by (rule split_sep_snoc[OF x])
  then have sp: "split_sep (''images/'' @ x) = [''images'', x]" by simp
  have a: "clean_step False [] ''images'' = [''images'']" by (simp add: clean_step_def)
  have b: "clean_step False [''images''] x = [''images'', x]"
    using clean_step_normal[OF n, of False "[''images'']"] by simp
  have "foldl (clean_step False) [] (split_sep (''images/'' @ x)) = [''images'', x]"
    by (simp only: sp foldl.simps a b)
  then have "Clean (''images/'' @ x) = ''images/'' @ x" by (simp add: Clean_def)
  then show ?thesis by simp
qed

lemma hex_digit_set: "hex_digit n \<in> set ''0123456789abcdef''"
proof -
  have "n mod 16 < length ''0123456789abcdef''" by simp
  then show ?thesis unfolding hex_digit_def by (rule nth_mem)
qed

lemma hex_encode_chars: "c \<in> set (hex_encode bs) \<Longrightarrow> c \<in> set ''0123456789abcdef''"
  using hex_digit_set by (auto simp: hex_encode_def hex_byte_def)

lemma length_hex_encode: "length (hex_encode bs) = 2 * length bs"
  by (induction bs) (auto simp: hex_encode_def hex_byte_def)

lemma hex_name_normal: "normal (hex_encode bs @ ''.jpg'')"
proof -
  have "CHR ''/'' \<notin> set (hex_encode bs)" using hex_encode_chars[of "CHR ''/''" bs] by auto
  moreover have "length (hex_encode bs @ ''.jpg'') \<ge> 4" by simp
  then have "hex_encode bs @ ''.jpg'' \<noteq> []" "hex_encode bs @ ''.jpg'' \<noteq> ''.''"
    "hex_encode bs @ ''.jpg'' \<noteq> ''..''" by (auto simp del: length_append)
  ultimately show ?thesis by (simp add: normal_def)
qed

lemma hex_name_not_default: "hex_encode bs @ ''.jpg'' \<noteq> ''default.jpg''"
proof
  assume "hex_encode bs @ ''.jpg'' = ''default.jpg''"
  then have "hex_encode bs @ ''.jpg'' = ''default'' @ ''.jpg''" by simp
  then have "hex_encode bs = ''default''" by (simp only: append_same_eq)
  then have "length (hex_encode bs) = 7" by simp
  then show False unfolding length_hex_encode by presburger
qed

subsection \<open>Stored images and inserted rows\<close>

lemma storeImage_Inr:
  assumes "storeImage sha256 dir w fs b = (Inr p, fs1)"
  shows "p = Join [dir, hex_encode (sha256 b) @ ''.jpg'']"
    and "fs1 = (if fs p \<noteq> None then fs else fs(p \<mapsto> b))"
proof -
  from assms show p: "p = Join [dir, hex_encode (sha256 b) @ ''.jpg'']"
    by (auto simp: storeImage_def ToSlash_def Let_def simp del: Join.simps
             split: if_splits option.splits)
  from assms p show "fs1 = (if fs p \<noteq> None then fs else fs(p \<mapsto> b))"
    by (auto simp: storeImage_def ToSlash_def Let_def simp del: Join.simps
             split: if_splits option.splits)
qed

lemma lookup_or_create_items:
  "lookup_or_create env d name = Inr (tx, cid) \<Longrightarrow> items tx = items d"
  by (auto simp: lookup_or_create_def query_row_def exec_def insert_category_def Let_def
           split: option.splits sum.splits list.splits if_splits)

lemma Insert_ok_row:
  assumes "Insert env store item = (None, store')"
  shows "items store' = items store @ [last (items store')]"
        "image_name (last (items store')) = Image_name item"
        "item_name (last (items store')) = Name item"
proof -
  from assms obtain tx cid where
    loc: "lookup_or_create env store (Category item) = Inr (tx, cid)" and
    ins: "insert_item tx (Name item) cid (Image_name item) = Inr store'"
    by (rule Insert_ok_steps)
  from insert_item_fields[OF ins] lookup_or_create_items[OF loc]
  show "items store' = items store @ [last (items store')]"
        "image_name (last (items store')) = Image_name item"
        "item_name (last (items store')) = Name item" by simp_all
qed

lemma TrimPrefix_not_default:
  assumes "normal x" "x \<noteq> ''default.jpg''"
  shows "TrimPrefix (Join [dir, x]) ''images/'' \<noteq> ''default.jpg''"
proof
  let ?p = "Join [dir, x]"
  assume t: "TrimPrefix ?p ''images/'' = ''default.jpg''"
  have "?p = ''default.jpg'' \<or> ?p = ''images/default.jpg''"
  proof (cases "prefix ''images/'' ?p")
    case True
    then obtain r where "?p = ''images/'' @ r" unfolding prefix_def by blast
    with t True show ?thesis by (simp add: TrimPrefix_def)
  next
    case False
    with t show ?thesis by (simp add: TrimPrefix_def)
  qed
  moreover have "elements ''default.jpg'' = [''default.jpg'']"
    "elements ''images/default.jpg'' = [''images'', ''default.jpg'']" by code_simp+
  ultimately have "last (elements ?p) = ''default.jpg''" by auto
  with Join_file_elements[OF assms(1), of dir] assms(2) show False by simp
qed

subsection \<open>The last element of a path, and the index page\<close>

lemma index_page_last:
  assumes "suffix ''/index.html'' (''/images/'' @ name)"
  shows "last (split_sep name) = ''index.html''"
proof -
  from assms have "suffix ''/index.html'' name \<or>
      (\<exists>xs'. ''/index.html'' = xs' @ name \<and> suffix xs' ''/images/'')"
    by (simp only: suffix_append)
  then show ?thesis
  proof
    assume "suffix ''/index.html'' name"
    then obtain pre where "name = pre @ CHR ''/'' # ''index.html''" by (auto simp: suffix_def)
    moreover have "CHR ''/'' \<notin> set ''index.html''" by simp
    ultimately show ?thesis using split_sep_snoc by simp
  next
    assume "\<exists>xs'. ''/index.html'' = xs' @ name \<and> suffix xs' ''/images/''"
    then obtain xs' where x: "''/index.html'' = xs' @ name" "suffix xs' ''/images/''" by blast
    from x(2) have "xs' \<in> {''/images/'', ''images/'', ''mages/'', ''ages/'', ''ges/'', ''es/'',
        ''s/'', ''/'', ''''}"
      by (auto simp: suffix_Cons)
    with x(1) have "name = ''index.html'' \<or> name = ''/index.html''" by auto
    then show ?thesis by auto
  qed
qed

lemma Clean_last_element:
  assumes n: "normal x" and l: "last (split_sep s) = x"
  shows "elements (Clean s) \<noteq> [] \<and> last (elements (Clean s)) = x"
proof -
  have sn: "s \<noteq> []" using n l by (auto simp: normal_def)
  let ?r = "hd s = CHR ''/''"
  let ?pre = "butlast (split_sep s)"
  have sp: "split_sep s = ?pre @ [x]" using l split_sep_nonempty[of s] by (metis append_butlast_last_id)
  let ?out = "foldl (clean_step ?r) [] ?pre"
  have "\<forall>c\<in>set ?pre. CHR ''/'' \<notin> set c"
    using split_sep_no_sep[of _ s] by (auto dest: in_set_butlastD)
  then have "clean_inv ?r ?out" by (intro foldl_clean_inv clean_inv_Nil)
  then have inv: "clean_inv ?r (?out @ [x])" by (rule clean_inv_snoc_normal[OF _ n])
  have out: "foldl (clean_step ?r) [] (split_sep s) = ?out @ [x]"
    by (subst sp) (simp add: clean_step_normal[OF n])
  show ?thesis
  proof (cases ?r)
    case True
    then have "clean_inv True (?out @ [x])" using inv by simp
    from elements_rooted[OF clean_inv_rooted[OF this]] True out sn show ?thesis
      by (simp add: Clean_def)
  next
    case r: False
    then have "clean_inv False (?out @ [x])" using inv by simp
    from elements_unrooted(1)[OF this] r out sn show ?thesis
      by (simp add: Clean_def)
  qed
qed

lemma elements_last_split:
  assumes "elements p \<noteq> []" "normal (last (elements p))"
  shows "last (split_sep p) = last (elements p)"
proof -
  have "p \<noteq> ''/''" using assms by (auto simp: elements_def normal_def)
  moreover have "p \<noteq> []" using assms(1) by (simp add: elements_Nil_iff)
  ultimately show ?thesis by (simp add: elements_def)
qed

lemma split_sep_append_sep: "split_sep (a @ CHR ''/'' # b) = split_sep a @ split_sep b"
proof (induction a)
  case Nil then show ?case by simp
next
  case (Cons c a)
  then show ?case using split_sep_nonempty[of a] by (cases "split_sep a") auto
qed

lemma Join_Clean_last_element:
  assumes n: "normal x" and l: "last (split_sep name) = x"
  shows "elements (Join [dir, Clean name]) \<noteq> [] \<and> last (elements (Join [dir, Clean name])) = x"
proof -
  note c = Clean_last_element[OF n l]
  then have cl: "last (split_sep (Clean name)) = x"
    using elements_last_split[of "Clean name"] n by simp
  show ?thesis
  proof (cases "dir = []")
    case True
    then have "Join [dir, Clean name] = Clean name"
      using Clean_nonempty[of name] Clean_idem[of name] by simp
    with c show ?thesis by simp
  next
    case False
    have "last (split_sep (dir @ CHR ''/'' # Clean name)) = x"
      using cl split_sep_nonempty[of "Clean name"] by (simp add: split_sep_append_sep)
    from Clean_last_element[OF n this] False show ?thesis by simp
  qed
qed

lemma last_element_suffix:
  assumes "elements p \<noteq> []"
  shows "suffix (last (elements p)) p"
proof (cases "p = ''/''")
  case True
  then show ?thesis by (simp add: elements_def)
next
  case False
  moreover have "p \<noteq> []" using assms by (simp add: elements_Nil_iff)
  ultimately have e: "elements p = split_sep p" by (simp add: elements_def)
  have "\<And>cs. cs \<noteq> [] \<Longrightarrow> suffix (last cs) (join_sep cs)"
  proof -
    fix cs :: "string list" assume "cs \<noteq> []"
    then have "join_sep cs = join_sep (butlast cs @ [last cs])" by simp
    then have j: "join_sep cs =
        (if butlast cs = [] then last cs else join_sep (butlast cs) @ CHR ''/'' # last cs)"
      by (simp only: join_sep_snoc)
    show "suffix (last cs) (join_sep cs)"
    proof (cases "butlast cs = []")
      case True
      with j show ?thesis by simp
    next
      case False
      with j have "join_sep cs = (join_sep (butlast cs) @ ''/'') @ last cs" by simp
      then show ?thesis by (rule suffixI)
    qed
  qed
  from this[OF split_sep_nonempty, of p] e show ?thesis by (simp add: join_split_sep)
qed

lemma index_page_not_image:
  assumes "suffix ''/index.html'' (''/images/'' @ name)"
  shows "\<not> image_suffix (Join [dir, Clean name])"
proof
  let ?p = "Join [dir, Clean name]"
  assume i: "image_suffix ?p"
  have n: "normal ''index.html''" by (simp add: normal_def)
  from Join_Clean_last_element[OF n index_page_last[OF assms], of dir] last_element_suffix[of ?p]
  have s: "suffix ''index.html'' ?p" by simp
  from i have "suffix ''.jpg'' ?p \<or> suffix ''.jpeg'' ?p" by (simp add: image_suffix_def)
  then show False
  proof
    assume "suffix ''.jpg'' ?p"
    with s have "suffix ''.jpg'' ''index.html'' \<or> suffix ''index.html'' ''.jpg''"
      using suffix_same_cases by blast
    then show False by (auto simp: suffix_Cons)
  next
    assume "suffix ''.jpeg'' ?p"
    with s have "suffix ''.jpeg'' ''index.html'' \<or> suffix ''index.html'' ''.jpeg''"
      using suffix_same_cases by blast
    then show False by (auto simp: suffix_Cons)
  qed
qed

section \<open>The claims about the catalog store\<close>

text \<open>
  C1. \<^verbatim>\<open>Insert\<close> runs the lookup-or-create of the category and the insert of the item
  as one atomic unit. In every execution in which the transaction was opened, the
  category block went through (with the category found, or created in the transaction)
  and the INSERT of the item fails with an error \<open>e\<close>, \<^verbatim>\<open>Insert\<close> returns \<open>e\<close> and the
  committed state is the state before the call: a category created on the way is rolled
  back with the rest. More generally, whenever \<^verbatim>\<open>Insert\<close> returns an error the committed
  state is the state before the call.
\<close>

theorem Insert_atomic:
  "(env StepBeginTx = None \<and> lookup_or_create env store (Category item) = Inr (tx, cid) \<and>
    exec env StepInsertItem (insert_item tx (Name item) cid (Image_name item)) = Inl e
      \<longrightarrow> Insert env store item = (Some e, store)) \<and>
   (fst (Insert env store item) \<noteq> None \<longrightarrow> snd (Insert env store item) = store)"
proof (intro conjI impI)
  assume "env StepBeginTx = None \<and> lookup_or_create env store (Category item) = Inr (tx, cid) \<and>
    exec env StepInsertItem (insert_item tx (Name item) cid (Image_name item)) = Inl e"
  then show "Insert env store item = (Some e, store)" by (simp add: Insert_def)
next
  assume "fst (Insert env store item) \<noteq> None"
  then show "snd (Insert env store item) = store" by (rule Insert_error_store)
qed

text \<open>
  The item insert fails after the category \<^verbatim>\<open>Sports\<close> has been created in the
  transaction; the committed state is the empty store, as before.
\<close>

theorem Insert_atomic_witness:
  "item_insert_fails StepBeginTx = None \<and>
   lookup_or_create item_insert_fails empty_db (Category bike) =
      Inr (empty_db\<lparr>categories := [\<lparr>cat_id = 1, cat_name = ''Sports''\<rparr>], seq_categories := 1\<rparr>, 1) \<and>
   Insert item_insert_fails empty_db bike = (Some (ErrDriver 13), empty_db)"
proof -
  let ?tx = "empty_db\<lparr>categories := [\<lparr>cat_id = 1, cat_name = ''Sports''\<rparr>], seq_categories := 1\<rparr>"
  have b: "item_insert_fails StepBeginTx = None"
    by (simp add: item_insert_fails_def no_faults_def)
  have l: "lookup_or_create item_insert_fails empty_db (Category bike) = Inr (?tx, 1)"
    by code_simp
  have i: "exec item_insert_fails StepInsertItem
             (insert_item ?tx (Name bike) 1 (Image_name bike)) = Inl (ErrDriver 13)"
    by (simp add: exec_def item_insert_fails_def)
  from Insert_atomic[of item_insert_fails empty_db bike ?tx 1 "ErrDriver 13"] b l i
  show ?thesis by simp
qed

text \<open>
  C2. No two category rows share a name, whatever sequence of calls of \<^verbatim>\<open>Insert\<close> has
  run on a store that obeys the schema. A successful \<^verbatim>\<open>Insert\<close> whose category name is
  exactly the name of an existing row leaves the category table as it is and gives the
  new item that row's id; a successful \<^verbatim>\<open>Insert\<close> with a name that no row has appends
  exactly one category row, with that name, and the new item refers to it.
\<close>

theorem category_names_unique:
  "wf_db store \<Longrightarrow>
     distinct (map cat_name (categories (Inserts store steps))) \<and>
     (Insert env store item = (None, store') \<longrightarrow>
        distinct (map cat_name (categories store')) \<and>
        (\<forall>c\<in>set (categories store). cat_name c = Category item \<longrightarrow>
            categories store' = categories store \<and>
            category_id (last (items store')) = cat_id c) \<and>
        (Category item \<notin> set (map cat_name (categories store)) \<longrightarrow>
            categories store' = categories store @
              [\<lparr>cat_id = category_id (last (items store')), cat_name = Category item\<rparr>]))"
proof (intro conjI impI ballI)
  assume wf: "wf_db store"
  from Inserts_wf[OF wf] show "distinct (map cat_name (categories (Inserts store steps)))"
    by (simp add: wf_db_def)
  assume ok: "Insert env store item = (None, store')"
  from Insert_wf[OF wf, of env item] ok show "distinct (map cat_name (categories store'))"
    by (simp add: wf_db_def)
  {
    fix c assume "c \<in> set (categories store)" "cat_name c = Category item"
    from Insert_ok_existing[OF wf ok this]
    show "categories store' = categories store"
      and "category_id (last (items store')) = cat_id c" by simp_all
  }
  assume "Category item \<notin> set (map cat_name (categories store))"
  from Insert_ok_new[OF ok this]
  show "categories store' = categories store @
      [\<lparr>cat_id = category_id (last (items store')), cat_name = Category item\<rparr>]" by simp
qed

text \<open>
  Two items of the category \<^verbatim>\<open>Sports\<close> inserted into the empty store: the first creates
  the category row, the second reuses its id 1 and leaves the table unchanged.
\<close>

theorem category_names_unique_witness:
  "wf_db empty_db \<and>
   Inserts empty_db [(no_faults, bike), (no_faults, ball)] = sports_db2 \<and>
   distinct (map cat_name (categories (Inserts empty_db [(no_faults, bike), (no_faults, ball)]))) \<and>
   Insert no_faults sports_db ball = (None, sports_db2) \<and>
   categories sports_db2 = categories sports_db \<and>
   category_id (last (items sports_db2)) = 1 \<and>
   Insert no_faults empty_db bike = (None, sports_db) \<and>
   categories sports_db = categories empty_db @ [\<lparr>cat_id = 1, cat_name = ''Sports''\<rparr>]"
proof -
  have a: "Insert no_faults empty_db bike = (None, sports_db)" by code_simp
  have b: "Insert no_faults sports_db ball = (None, sports_db2)" by code_simp
  have c: "Inserts empty_db [(no_faults, bike), (no_faults, ball)] = sports_db2"
    by (simp add: a b)
  have m: "\<lparr>cat_id = 1, cat_name = ''Sports''\<rparr> \<in> set (categories sports_db)"
    by (simp add: sports_db_def)
  have n: "Category bike \<notin> set (map cat_name (categories empty_db))"
    by (simp add: empty_db_def)
  from category_names_unique[OF wf_empty_db, of "[(no_faults, bike), (no_faults, ball)]"
         no_faults bike sports_db]
       category_names_unique[of sports_db "[]" no_faults ball sports_db2]
       a b c m n wf_empty_db
  show ?thesis
    by (simp add: sports_db_def sports_db2_def bike_def ball_def wf_db_def empty_db_def)
qed

text \<open>
  C3. After a successful \<^verbatim>\<open>Insert\<close> into a store that obeys the schema, the item table
  is the old one with one new row at its end, and \<^verbatim>\<open>GetItemById\<close> on a text that
  denotes the id of that row (and with no fault of the engine) returns the record with
  that id and the submitted name, category name and image file name. This holds for every
  submission, the valid ones (non-empty name, category and file name) among them.
\<close>

theorem Insert_then_GetItemById:
  assumes "wf_db store" and "Insert env store item = (None, store')"
      and "env' StepQueryItem = None"
      and "to_int key = Some (item_id (last (items store')))"
  shows "items store' = items store @ [last (items store')] \<and>
         GetItemById to_int env' store' key =
           Inr \<lparr>ID = item_id (last (items store')), Name = Name item,
                Category = Category item, Image_name = Image_name item\<rparr>"
proof -
  from Insert_wf[OF assms(1), of env item] assms(2) have wf': "wf_db store'" by simp
  from assms(2) obtain tx cid where
    ins: "insert_item tx (Name item) cid (Image_name item) = Inr store'"
    by (rule Insert_ok_steps)
  from assms(2) have its: "items store' = items store @ [last (items store')]"
    by (cases "Category item \<in> set (map cat_name (categories store))")
       (use Insert_ok_existing[OF assms(1,2)] Insert_ok_new[OF assms(2)] in auto)
  then have mem: "last (items store') \<in> set (items store')"
    by (metis in_set_conv_decomp)
  from Insert_ok_category[OF assms(1,2)] obtain c where
    c: "c \<in> set (categories store')" "cat_id c = category_id (last (items store'))"
       "cat_name c = Category item" by auto
  from GetItemById_found[where to_int=to_int and key=key and env=env', OF wf' mem c(1,2) assms(4,3)] insert_item_fields(3,5)[OF ins] c(3) its
  show ?thesis by (simp add: scan_item_def)
qed

theorem Insert_then_GetItemById_witness:
  "wf_db sports_db \<and> Insert no_faults sports_db ball = (None, sports_db2) \<and>
   no_faults StepQueryItem = None \<and> decimal_1_2 ''2'' = Some (item_id (last (items sports_db2))) \<and>
   GetItemById decimal_1_2 no_faults sports_db2 ''2'' =
     Inr \<lparr>ID = 2, Name = ''Ball'', Category = ''Sports'', Image_name = ''def.jpg''\<rparr>"
proof -
  have w: "wf_db sports_db" by (simp add: wf_db_def sports_db_def)
  have b: "Insert no_faults sports_db ball = (None, sports_db2)" by code_simp
  have q: "no_faults StepQueryItem = None" by (simp add: no_faults_def)
  have k: "decimal_1_2 ''2'' = Some (item_id (last (items sports_db2)))"
    by (simp add: decimal_1_2_def sports_db2_def)
  from Insert_then_GetItemById[where to_int=decimal_1_2 and key="''2''" and env'=no_faults, OF w b q k] w b q k show ?thesis
    by (simp add: sports_db2_def ball_def)
qed

text \<open>
  C7, at a keyword that is a wildcard of LIKE. The claim asks for exactly the items
  whose name contains the keyword. The keyword \<^verbatim>\<open>_\<close> is put between two \<^verbatim>\<open>%\<close> unescaped,
  so the pattern \<^verbatim>\<open>%_%\<close> matches every name of at least one character: the search
  returns all three items of the catalog, and none of their names contains \<^verbatim>\<open>_\<close>.
\<close>

theorem SearchItemsByKeyword_wildcard:
  "SearchItemsByKeyword no_faults shirts_db ''_'' =
     Inr [\<lparr>ID = 1, Name = ''Blue Shirt'', Category = ''Clothes'', Image_name = ''a.jpg''\<rparr>,
          \<lparr>ID = 2, Name = ''Shirt'', Category = ''Clothes'', Image_name = ''b.jpg''\<rparr>,
          \<lparr>ID = 3, Name = ''Pants'', Category = ''Clothes'', Image_name = ''c.jpg''\<rparr>] \<and>
   \<not> contains_keyword ''_'' ''Blue Shirt'' \<and>
   \<not> contains_keyword ''_'' ''Shirt'' \<and>
   \<not> contains_keyword ''_'' ''Pants''"
  by code_simp

text \<open>
  C8. \<^verbatim>\<open>GetItemById\<close>: a fault of the storage engine (other than \<^verbatim>\<open>sql.ErrNoRows\<close>) is
  returned as the error it is; without a fault, an id text that denotes the id of no
  item (a text that is no number among them) gives \<^verbatim>\<open>errItemNotFound\<close>; otherwise, in a
  store that obeys the schema and its foreign key, the result is the one item with that
  id, joined with the name of its category.
\<close>

theorem GetItemById_cases:
  "(env StepQueryItem = Some e \<and> e \<noteq> ErrNoRows \<longrightarrow>
      GetItemById to_int env d key = Inl (ErrStorage e)) \<and>
   (env StepQueryItem = None \<and> (\<forall>i\<in>set (items d). to_int key \<noteq> Some (item_id i)) \<longrightarrow>
      GetItemById to_int env d key = Inl ErrItemNotFound) \<and>
   (env StepQueryItem = None \<and> wf_db d \<and> ref_integrity d \<and>
    i \<in> set (items d) \<and> to_int key = Some (item_id i) \<longrightarrow>
      (\<exists>c\<in>set (categories d). cat_id c = category_id i \<and>
         GetItemById to_int env d key =
           Inr \<lparr>ID = item_id i, Name = item_name i, Category = cat_name c,
                Image_name = image_name i\<rparr>))"
proof (intro conjI impI)
  assume "env StepQueryItem = Some e \<and> e \<noteq> ErrNoRows"
  then show "GetItemById to_int env d key = Inl (ErrStorage e)"
    by (simp add: GetItemById_def query_row_def)
next
  assume "env StepQueryItem = None \<and> (\<forall>i\<in>set (items d). to_int key \<noteq> Some (item_id i))"
  then show "GetItemById to_int env d key = Inl ErrItemNotFound"
    by (simp add: GetItemById_missing)
next
  assume h: "env StepQueryItem = None \<and> wf_db d \<and> ref_integrity d \<and>
    i \<in> set (items d) \<and> to_int key = Some (item_id i)"
  then have "category_id i \<in> set (map cat_id (categories d))"
    by (auto simp: ref_integrity_def list_all_iff)
  then obtain c where c: "c \<in> set (categories d)" "cat_id c = category_id i" by auto
  from h GetItemById_found[where to_int=to_int and key=key and env=env, OF _ _ c]
  have "GetItemById to_int env d key = Inr (scan_item (i, c))" by simp
  with c show "\<exists>c\<in>set (categories d). cat_id c = category_id i \<and>
         GetItemById to_int env d key =
           Inr \<lparr>ID = item_id i, Name = item_name i, Category = cat_name c,
                Image_name = image_name i\<rparr>"
    by (auto simp: scan_item_def)
qed

theorem GetItemById_cases_witness:
  "query_fails StepQueryItem = Some (ErrDriver 10) \<and>
   GetItemById decimal_1_2 query_fails sports_db2 ''2'' = Inl (ErrStorage (ErrDriver 10)) \<and>
   no_faults StepQueryItem = None \<and>
   decimal_1_2 ''abc'' = None \<and>
   GetItemById decimal_1_2 no_faults sports_db2 ''abc'' = Inl ErrItemNotFound \<and>
   wf_db sports_db2 \<and> ref_integrity sports_db2 \<and>
   GetItemById decimal_1_2 no_faults sports_db2 ''2'' =
     Inr \<lparr>ID = 2, Name = ''Ball'', Category = ''Sports'', Image_name = ''def.jpg''\<rparr>"
proof -
  let ?ball = "\<lparr>item_id = 2, item_name = ''Ball'', category_id = 1, image_name = ''def.jpg''\<rparr>"
  have f: "query_fails StepQueryItem = Some (ErrDriver 10) \<and> ErrDriver 10 \<noteq> ErrNoRows"
    by (simp add: query_fails_def)
  have n: "no_faults StepQueryItem = None" by (simp add: no_faults_def)
  have m: "\<forall>i\<in>set (items sports_db2). decimal_1_2 ''abc'' \<noteq> Some (item_id i)"
    by (simp add: decimal_1_2_def)
  have w: "wf_db sports_db2" "ref_integrity sports_db2"
    by (simp_all add: wf_db_def ref_integrity_def sports_db2_def sports_db_def)
  have i: "?ball \<in> set (items sports_db2)" "decimal_1_2 ''2'' = Some (item_id ?ball)"
    by (simp_all add: sports_db2_def decimal_1_2_def)
  from GetItemById_cases[where env=query_fails and e="ErrDriver 10" and to_int=decimal_1_2
         and d=sports_db2 and key="''2''"] f
  have 1: "GetItemById decimal_1_2 query_fails sports_db2 ''2'' = Inl (ErrStorage (ErrDriver 10))"
    by simp
  from GetItemById_cases[where env=no_faults and to_int=decimal_1_2
         and d=sports_db2 and key="''abc''"] n m
  have 2: "GetItemById decimal_1_2 no_faults sports_db2 ''abc'' = Inl ErrItemNotFound"
    by simp
  from GetItemById_cases[where env=no_faults and to_int=decimal_1_2
         and d=sports_db2 and key="''2''" and i="?ball"] n w i
  have 3: "GetItemById decimal_1_2 no_faults sports_db2 ''2'' =
     Inr \<lparr>ID = 2, Name = ''Ball'', Category = ''Sports'', Image_name = ''def.jpg''\<rparr>"
    by (auto simp: sports_db2_def sports_db_def)
  have a: "decimal_1_2 ''abc'' = None" by (simp add: decimal_1_2_def)
  from f n a w 1 2 3 show ?thesis by simp
qed

section \<open>The claims about the image blob store\<close>

text \<open>
  C4. \<^verbatim>\<open>storeImage\<close> is idempotent. When a first call for the bytes \<open>b\<close> has returned a
  path \<open>p\<close>, a second call for \<open>b\<close> returns \<open>p\<close> again and leaves the files as they are,
  whether or not a write would succeed (it writes nothing); \<open>p\<close> is the blob directory
  joined with the file name, and the file name, the last element of \<open>p\<close>, is the
  hexadecimal digest of \<open>b\<close> followed by \<^verbatim>\<open>.jpg\<close>. The file exists after the first call,
  the two calls have added no path but \<open>p\<close>, and a file the first call created holds \<open>b\<close>.
  Nothing here needs \<open>b\<close> to be non-empty.
\<close>

theorem storeImage_idempotent:
  assumes "storeImage sha256 dir w1 fs b = (Inr p, fs1)"
  shows "storeImage sha256 dir w2 fs1 b = (Inr p, fs1) \<and>
         p = Join [dir, hex_encode (sha256 b) @ ''.jpg''] \<and>
         last (elements p) = hex_encode (sha256 b) @ ''.jpg'' \<and>
         fs1 p \<noteq> None \<and>
         dom fs1 = insert p (dom fs) \<and>
         (fs p = None \<longrightarrow> fs1 p = Some b)"
proof -
  note p = storeImage_Inr(1)[OF assms] and fs1 = storeImage_Inr(2)[OF assms]
  from fs1 have ex: "fs1 p \<noteq> None" by auto
  then have again: "storeImage sha256 dir w2 fs1 b = (Inr p, fs1)"
    unfolding p by (simp add: storeImage_def ToSlash_def Let_def del: Join.simps)
  from fs1 have d: "dom fs1 = insert p (dom fs)" by (auto split: if_splits)
  from fs1 have n: "fs p = None \<longrightarrow> fs1 p = Some b" by simp
  from Join_file_elements[OF hex_name_normal, of dir "sha256 b"] p
  have l: "last (elements p) = hex_encode (sha256 b) @ ''.jpg''" by simp
  from again p l ex d n show ?thesis by blast
qed

theorem storeImage_idempotent_witness:
  "storeImage example_digest ''images'' None no_files [1, 2, 3] =
     (Inr ''images/0102.jpg'', no_files(''images/0102.jpg'' \<mapsto> [1, 2, 3])) \<and>
   storeImage example_digest ''images'' (Some 5) (no_files(''images/0102.jpg'' \<mapsto> [1, 2, 3])) [1, 2, 3] =
     (Inr ''images/0102.jpg'', no_files(''images/0102.jpg'' \<mapsto> [1, 2, 3])) \<and>
   ''images/0102.jpg'' = Join [''images'', hex_encode (example_digest [1, 2, 3]) @ ''.jpg''] \<and>
   last (elements ''images/0102.jpg'') = ''0102.jpg'' \<and>
   dom (no_files(''images/0102.jpg'' \<mapsto> [1, 2, 3])) = insert ''images/0102.jpg'' (dom no_files)"
proof -
  have h: "hex_encode (example_digest [1, 2, 3]) @ ''.jpg'' = ''0102.jpg''" by code_simp
  have j: "Join [''images'', ''0102.jpg''] = ''images/0102.jpg''" by code_simp
  have s: "storeImage example_digest ''images'' None no_files [1, 2, 3] =
     (Inr ''images/0102.jpg'', no_files(''images/0102.jpg'' \<mapsto> [1, 2, 3]))"
    by (simp add: storeImage_def h j ToSlash_def no_files_def Let_def del: Join.simps)
  from storeImage_idempotent[OF s, of "Some 5"] s h j show ?thesis by simp
qed

text \<open>
  C5, as the claim states it: every file name with a \<^verbatim>\<open>..\<close> segment would be rejected,
  and so would every file name whose suffix is not an accepted one. Neither holds, since
  both tests are made after the name has been cleaned: \<^verbatim>\<open>a/../b.jpg\<close> has a \<^verbatim>\<open>..\<close>
  segment and \<^verbatim>\<open>b.jpg/\<close> ends in a separator, and both resolve to \<^verbatim>\<open>images/b.jpg\<close>.
\<close>

theorem buildImagePath_dotdot_counterexample:
  "''..'' \<in> set (split_sep ''a/../b.jpg'') \<and>
   buildImagePath ''images'' no_files ''a/../b.jpg'' = (''images/b.jpg'', Some ErrImageNotFound) \<and>
   GetImage ''images'' no_files ''a/../b.jpg'' = ServeFile ''images/default.jpg'' \<and>
   \<not> image_suffix ''b.jpg/'' \<and>
   buildImagePath ''images'' no_files ''b.jpg/'' = (''images/b.jpg'', Some ErrImageNotFound) \<and>
   GetImage ''images'' no_files ''b.jpg/'' = ServeFile ''images/default.jpg''"
  by code_simp

text \<open>
  C5, amended. Let \<open>imgPath\<close> be the cleaned path of the file name under the blob
  directory. \<^verbatim>\<open>buildImagePath\<close> rejects every file name whose \<open>imgPath\<close> is neither the
  root nor inside it, whatever its suffix, and every file name whose \<open>imgPath\<close> does not
  end in \<^verbatim>\<open>.jpg\<close> or \<^verbatim>\<open>.jpeg\<close>; \<^verbatim>\<open>GetImage\<close> answers both with status 400. So a path
  that \<^verbatim>\<open>buildImagePath\<close> returns (with no error, or with \<^verbatim>\<open>errImageNotFound\<close>) is
  \<open>imgPath\<close>, ends in an accepted suffix and is the root or inside it, and it is inside
  the root whenever the root's own name has no accepted suffix.
\<close>

theorem buildImagePath_contained:
  assumes "imgPath = Join [dir, Clean name]"
  shows "(\<not> (imgPath = Clean dir \<or> inside_root dir imgPath) \<longrightarrow>
            buildImagePath dir fs name = ([], Some (ErrInvalidPath imgPath)) \<and>
            GetImage dir fs name = HTTPError 400) \<and>
         (\<not> image_suffix imgPath \<longrightarrow>
            (buildImagePath dir fs name = ([], Some (ErrInvalidPath imgPath)) \<or>
             buildImagePath dir fs name = ([], Some (ErrSuffix imgPath))) \<and>
            GetImage dir fs name = HTTPError 400) \<and>
         (snd (buildImagePath dir fs name) = None \<or>
          snd (buildImagePath dir fs name) = Some ErrImageNotFound \<longrightarrow>
            fst (buildImagePath dir fs name) = imgPath \<and> image_suffix imgPath \<and>
            (imgPath = Clean dir \<or> inside_root dir imgPath) \<and>
            (\<not> image_suffix (Clean dir) \<longrightarrow> inside_root dir imgPath))"
proof -
  note g = buildImagePath_guard[OF assms, of fs]
  show ?thesis
  proof (intro conjI impI)
    assume "\<not> (imgPath = Clean dir \<or> inside_root dir imgPath)"
    with g show b: "buildImagePath dir fs name = ([], Some (ErrInvalidPath imgPath))" by simp
    then show "GetImage dir fs name = HTTPError 400" by (simp add: GetImage_def)
  next
    assume "\<not> image_suffix imgPath"
    with g show b: "buildImagePath dir fs name = ([], Some (ErrInvalidPath imgPath)) \<or>
             buildImagePath dir fs name = ([], Some (ErrSuffix imgPath))" by simp
    then show "GetImage dir fs name = HTTPError 400" by (auto simp: GetImage_def)
  next
    assume a: "snd (buildImagePath dir fs name) = None \<or>
          snd (buildImagePath dir fs name) = Some ErrImageNotFound"
    with g show "fst (buildImagePath dir fs name) = imgPath" by (auto split: if_splits)
    from a g show s: "image_suffix imgPath" by (auto split: if_splits)
    from a g show i: "imgPath = Clean dir \<or> inside_root dir imgPath" by (auto split: if_splits)
    assume "\<not> image_suffix (Clean dir)"
    with s i show "inside_root dir imgPath" by auto
  qed
qed

theorem buildImagePath_contained_witness:
  "''x.jpg'' = Join [''images'', Clean ''../x.jpg''] \<and>
   ''x.jpg'' \<noteq> Clean ''images'' \<and> \<not> inside_root ''images'' ''x.jpg'' \<and>
   buildImagePath ''images'' no_files ''../x.jpg'' = ([], Some (ErrInvalidPath ''x.jpg'')) \<and>
   GetImage ''images'' no_files ''../x.jpg'' = HTTPError 400 \<and>
   ''images/x.png'' = Join [''images'', Clean ''x.png''] \<and>
   \<not> image_suffix ''images/x.png'' \<and>
   GetImage ''images'' no_files ''x.png'' = HTTPError 400 \<and>
   ''images/abc.jpg'' = Join [''images'', Clean ''abc.jpg''] \<and>
   buildImagePath ''images'' no_files ''abc.jpg'' = (''images/abc.jpg'', Some ErrImageNotFound) \<and>
   \<not> image_suffix (Clean ''images'') \<and>
   image_suffix ''images/abc.jpg'' \<and> inside_root ''images'' ''images/abc.jpg''"
proof -
  have a: "''x.jpg'' = Join [''images'', Clean ''../x.jpg'']" by code_simp
  have a': "\<not> (''x.jpg'' = Clean ''images'' \<or> inside_root ''images'' ''x.jpg'')" by code_simp
  have b: "''images/x.png'' = Join [''images'', Clean ''x.png'']" by code_simp
  have b': "\<not> image_suffix ''images/x.png''" by code_simp
  have c: "''images/abc.jpg'' = Join [''images'', Clean ''abc.jpg'']" by code_simp
  have c': "buildImagePath ''images'' no_files ''abc.jpg'' = (''images/abc.jpg'', Some ErrImageNotFound)"
    by code_simp
  have d: "\<not> image_suffix (Clean ''images'')" by code_simp
  from buildImagePath_contained[where fs=no_files, OF a] a'
  have 1: "buildImagePath ''images'' no_files ''../x.jpg'' = ([], Some (ErrInvalidPath ''x.jpg''))"
    "GetImage ''images'' no_files ''../x.jpg'' = HTTPError 400" by blast+
  from buildImagePath_contained[where fs=no_files, OF b] b'
  have 2: "GetImage ''images'' no_files ''x.png'' = HTTPError 400" by blast
  from buildImagePath_contained[where fs=no_files, OF c] c' d
  have 3: "image_suffix ''images/abc.jpg''" "inside_root ''images'' ''images/abc.jpg''" by simp_all
  from a a' b b' c c' d 1 2 3 show ?thesis by blast
qed

text \<open>
  C6, as the claim states it: every file name whose cleaned path is inside the blob
  root, has an accepted suffix and has no file behind it would give \<^verbatim>\<open>errImageNotFound\<close>
  and the default image, with no error for the client. The name \<^verbatim>\<open>..foo.jpg\<close> is such a
  name, but its path relative to the root begins with the two characters \<^verbatim>\<open>..\<close>, which
  the guard \<^verbatim>\<open>strings.HasPrefix(rel, "..")\<close> refuses: the answer is status 400. The name
  \<^verbatim>\<open>a/../b.jpg\<close> is such a name too, and \<^verbatim>\<open>buildImagePath\<close> gives \<^verbatim>\<open>errImageNotFound\<close>
  for it; but the request path then has an element \<^verbatim>\<open>..\<close>, which \<^verbatim>\<open>http.ServeFile\<close>
  refuses, so the client receives status 400 and not the default image.
\<close>

theorem buildImagePath_valid_form_counterexample:
  "''images/..foo.jpg'' = Join [''images'', Clean ''..foo.jpg''] \<and>
   inside_root ''images'' ''images/..foo.jpg'' \<and>
   image_suffix ''images/..foo.jpg'' \<and>
   default_only ''images/..foo.jpg'' = None \<and>
   buildImagePath ''images'' default_only ''..foo.jpg'' = ([], Some (ErrInvalidPath ''images/..foo.jpg'')) \<and>
   GetImage ''images'' default_only ''..foo.jpg'' = HTTPError 400 \<and>
   GetImage_answer ''images'' default_only ''..foo.jpg'' = HTTPError 400 \<and>
   ''images/b.jpg'' = Join [''images'', Clean ''a/../b.jpg''] \<and>
   inside_root ''images'' ''images/b.jpg'' \<and>
   image_suffix ''images/b.jpg'' \<and>
   default_only ''images/b.jpg'' = None \<and>
   buildImagePath ''images'' default_only ''a/../b.jpg'' = (''images/b.jpg'', Some ErrImageNotFound) \<and>
   GetImage_answer ''images'' default_only ''a/../b.jpg'' = HTTPError 400"
  by code_simp

text \<open>
  C6, amended: for every non-empty file name whose cleaned path is inside the blob root,
  with a path relative to the root that does not begin with \<^verbatim>\<open>..\<close>, with an accepted
  suffix and with no file behind it, \<^verbatim>\<open>buildImagePath\<close> returns the path with
  \<^verbatim>\<open>errImageNotFound\<close>, and \<^verbatim>\<open>GetImage\<close> hands the default image of the blob directory to
  \<^verbatim>\<open>http.ServeFile\<close> instead of reporting the error. The client then receives the
  content of the default image when the file name has no element \<^verbatim>\<open>..\<close> (between slashes
  or backslashes) and the default image exists, status 404 when the name has no such
  element and the default image is missing, and status 400 when the name has such an
  element.
\<close>

theorem GetImage_not_found_default:
  assumes "imgPath = Join [dir, Clean name]"
      and "inside_root dir imgPath"
      and "\<not> prefix ''..'' (join_sep (relative_path dir imgPath))"
      and "image_suffix imgPath"
      and "fs imgPath = None"
      and "name \<noteq> []"
  shows "buildImagePath dir fs name = (imgPath, Some ErrImageNotFound) \<and>
         GetImage dir fs name = ServeFile (Join [dir, ''default.jpg'']) \<and>
         (\<not> containsDotDot (''/images/'' @ name) \<and> fs (Join [dir, ''default.jpg'']) = Some d \<longrightarrow>
            GetImage_answer dir fs name = ServeContent (Join [dir, ''default.jpg'']) d) \<and>
         (\<not> containsDotDot (''/images/'' @ name) \<and> fs (Join [dir, ''default.jpg'']) = None \<longrightarrow>
            GetImage_answer dir fs name = HTTPError 404) \<and>
         (containsDotDot (''/images/'' @ name) \<longrightarrow> GetImage_answer dir fs name = HTTPError 400)"
proof -
  from buildImagePath_guard[OF assms(1), of fs] assms(2-5)
  have b: "buildImagePath dir fs name = (imgPath, Some ErrImageNotFound)" by simp
  with assms(6) have g: "GetImage dir fs name = ServeFile (Join [dir, ''default.jpg''])"
    by (simp add: GetImage_def del: Join.simps)
  have ni: "\<not> suffix ''/index.html'' (''/images/'' @ name)"
    using index_page_not_image[of name dir] assms(1,4) by blast
  from g have a: "GetImage_answer dir fs name =
      http_ServeFile fs (''/images/'' @ name) (Join [dir, ''default.jpg''])"
    by (simp add: GetImage_answer_def del: Join.simps)
  from b g a ni show ?thesis
    by (simp add: http_ServeFile_def del: Join.simps)
qed

theorem GetImage_not_found_default_witness:
  "''images/abc.jpg'' = Join [''images'', Clean ''abc.jpg''] \<and>
   inside_root ''images'' ''images/abc.jpg'' \<and>
   \<not> prefix ''..'' (join_sep (relative_path ''images'' ''images/abc.jpg'')) \<and>
   image_suffix ''images/abc.jpg'' \<and>
   default_only ''images/abc.jpg'' = None \<and>
   \<not> containsDotDot (''/images/'' @ ''abc.jpg'') \<and>
   default_only (Join [''images'', ''default.jpg'']) = Some [7, 7, 7] \<and>
   buildImagePath ''images'' default_only ''abc.jpg'' = (''images/abc.jpg'', Some ErrImageNotFound) \<and>
   GetImage ''images'' default_only ''abc.jpg'' = ServeFile ''images/default.jpg'' \<and>
   GetImage_answer ''images'' default_only ''abc.jpg'' = ServeContent ''images/default.jpg'' [7, 7, 7] \<and>
   no_files (Join [''images'', ''default.jpg'']) = None \<and>
   GetImage_answer ''images'' no_files ''abc.jpg'' = HTTPError 404 \<and>
   ''images/b.jpg'' = Join [''images'', Clean ''a/../b.jpg''] \<and>
   containsDotDot (''/images/'' @ ''a/../b.jpg'') \<and>
   GetImage_answer ''images'' default_only ''a/../b.jpg'' = HTTPError 400"
proof -
  have a: "''images/abc.jpg'' = Join [''images'', Clean ''abc.jpg'']" by code_simp
  have b: "inside_root ''images'' ''images/abc.jpg''" by code_simp
  have c: "\<not> prefix ''..'' (join_sep (relative_path ''images'' ''images/abc.jpg''))" by code_simp
  have d: "image_suffix ''images/abc.jpg''" by code_simp
  have e: "default_only ''images/abc.jpg'' = None" by (simp add: default_only_def)
  have e': "no_files ''images/abc.jpg'' = None" by (simp add: no_files_def)
  have f: "''abc.jpg'' \<noteq> []" by simp
  have j: "Join [''images'', ''default.jpg''] = ''images/default.jpg''" by code_simp
  have k: "\<not> containsDotDot (''/images/'' @ ''abc.jpg'')" by code_simp
  have l: "default_only (Join [''images'', ''default.jpg'']) = Some [7, 7, 7]" by code_simp
  have m: "no_files (Join [''images'', ''default.jpg'']) = None" by (simp add: no_files_def)
  have a2: "''images/b.jpg'' = Join [''images'', Clean ''a/../b.jpg'']" by code_simp
  have b2: "inside_root ''images'' ''images/b.jpg''" by code_simp
  have c2: "\<not> prefix ''..'' (join_sep (relative_path ''images'' ''images/b.jpg''))" by code_simp
  have d2: "image_suffix ''images/b.jpg''" by code_simp
  have e2: "default_only ''images/b.jpg'' = None" by (simp add: default_only_def)
  have f2: "''a/../b.jpg'' \<noteq> []" by simp
  have k2: "containsDotDot (''/images/'' @ ''a/../b.jpg'')" by code_simp
  from GetImage_not_found_default[where fs=default_only and d="[7, 7, 7]", OF a b c d e f] k l
  have 1: "buildImagePath ''images'' default_only ''abc.jpg'' = (''images/abc.jpg'', Some ErrImageNotFound)"
    "GetImage ''images'' default_only ''abc.jpg'' = ServeFile (Join [''images'', ''default.jpg''])"
    "GetImage_answer ''images'' default_only ''abc.jpg'' =
       ServeContent (Join [''images'', ''default.jpg'']) [7, 7, 7]"
    by blast+
  from GetImage_not_found_default[where fs=no_files, OF a b c d e' f] k m
  have 2: "GetImage_answer ''images'' no_files ''abc.jpg'' = HTTPError 404" by blast
  from GetImage_not_found_default[where fs=default_only, OF a2 b2 c2 d2 e2 f2] k2
  have 3: "GetImage_answer ''images'' default_only ''a/../b.jpg'' = HTTPError 400" by blast
  from a b c d e k l m a2 k2 1[unfolded j] 2 3 show ?thesis by blast
qed

text \<open>
  C10. When a submission carries no image bytes and \<^verbatim>\<open>AddItem\<close> succeeds, the bytes \<open>d\<close>
  of the default image have been read and stored under their digest: the file at the
  path of the blob (the blob directory joined with the hexadecimal digest of \<open>d\<close> and
  \<^verbatim>\<open>.jpg\<close>) holds \<open>d\<close> when no file was there before, no other file has changed, and
  nothing is written when a file was there. The item table has one new row, with the
  submitted name, whose image name is the path of the blob without a leading
  \<^verbatim>\<open>images/\<close>; that name is never \<^verbatim>\<open>default.jpg\<close>, and it is the bare file name of the
  blob when the blob directory is \<^verbatim>\<open>images\<close>.
\<close>

theorem AddItem_default_image:
  assumes "ReqImage req = []"
      and "fs (Join [dir, ''default.jpg'']) = Some d"
      and "AddItem sha256 dir wfault env (Inr req) fs store = (AddItemResponse msg, fs', store')"
  shows "items store' = items store @ [last (items store')] \<and>
         image_name (last (items store')) =
           TrimPrefix (Join [dir, hex_encode (sha256 d) @ ''.jpg'']) ''images/'' \<and>
         image_name (last (items store')) \<noteq> ''default.jpg'' \<and>
         (dir = ''images'' \<longrightarrow>
            image_name (last (items store')) = hex_encode (sha256 d) @ ''.jpg'') \<and>
         fs' (Join [dir, hex_encode (sha256 d) @ ''.jpg'']) \<noteq> None \<and>
         (fs (Join [dir, hex_encode (sha256 d) @ ''.jpg'']) = None \<longrightarrow>
            fs' = fs(Join [dir, hex_encode (sha256 d) @ ''.jpg''] \<mapsto> d)) \<and>
         (fs (Join [dir, hex_encode (sha256 d) @ ''.jpg'']) \<noteq> None \<longrightarrow> fs' = fs) \<and>
         item_name (last (items store')) = ReqName req"
proof -
  let ?name = "hex_encode (sha256 d) @ ''.jpg''"
  obtain r fs1 where st: "storeImage sha256 dir wfault fs d = (r, fs1)"
    by (cases "storeImage sha256 dir wfault fs d") auto
  from assms st obtain p where r: "r = Inr p"
    by (cases r) (auto simp: AddItem_def simp del: Join.simps)
  let ?item = "\<lparr>ID = 0, Name = ReqName req, Category = ReqCategory req,
                 Image_name = TrimPrefix p ''images/''\<rparr>"
  from assms st r have ins: "Insert env store ?item = (None, store')" and f: "fs' = fs1"
    by (auto simp: AddItem_def Let_def simp del: Join.simps split: prod.splits option.splits)
  note p = storeImage_Inr(1)[OF st[unfolded r]] and fs1 = storeImage_Inr(2)[OF st[unfolded r]]
  from Insert_ok_row[OF ins] p
  have a: "items store' = items store @ [last (items store')]"
    and b: "image_name (last (items store')) = TrimPrefix (Join [dir, ?name]) ''images/''"
    and n: "item_name (last (items store')) = ReqName req"
    by simp_all
  from TrimPrefix_not_default[OF hex_name_normal hex_name_not_default, of dir "sha256 d"] b
  have c: "image_name (last (items store')) \<noteq> ''default.jpg''" by simp
  have e: "dir = ''images'' \<longrightarrow> image_name (last (items store')) = ?name"
    using b Join_images[OF hex_name_normal, of "sha256 d"] by (simp add: TrimPrefix_def)
  from fs1 f p have g: "fs' (Join [dir, ?name]) \<noteq> None" by auto
  from fs1 f p have h: "fs (Join [dir, ?name]) = None \<longrightarrow> fs' = fs(Join [dir, ?name] \<mapsto> d)"
    by simp
  from fs1 f p have i: "fs (Join [dir, ?name]) \<noteq> None \<longrightarrow> fs' = fs" by simp
  from a b c e g h i n show ?thesis by blast
qed

theorem AddItem_default_image_witness:
  "ReqImage hat_request = [] \<and>
   default_only (Join [''images'', ''default.jpg'']) = Some [7, 7, 7] \<and>
   fst (AddItem example_digest ''images'' None no_faults (Inr hat_request) default_only empty_db)
     = AddItemResponse ''item received: Hat'' \<and>
   image_name (last (items (snd (snd
     (AddItem example_digest ''images'' None no_faults (Inr hat_request) default_only empty_db)))))
     = ''0707.jpg'' \<and>
   hex_encode (example_digest [7, 7, 7]) @ ''.jpg'' = ''0707.jpg'' \<and>
   default_only (Join [''images'', hex_encode (example_digest [7, 7, 7]) @ ''.jpg'']) = None \<and>
   fst (snd (AddItem example_digest ''images'' None no_faults (Inr hat_request) default_only empty_db))
     = default_only(''images/0707.jpg'' \<mapsto> [7, 7, 7])"
proof -
  let ?r = "AddItem example_digest ''images'' None no_faults (Inr hat_request) default_only empty_db"
  have a: "ReqImage hat_request = []" by (simp add: hat_request_def)
  have b: "default_only (Join [''images'', ''default.jpg'']) = Some [7, 7, 7]" by code_simp
  have c: "fst ?r = AddItemResponse ''item received: Hat''" by code_simp
  then have d: "?r = (AddItemResponse ''item received: Hat'', fst (snd ?r), snd (snd ?r))"
    by (metis prod.collapse)
  have h: "hex_encode (example_digest [7, 7, 7]) @ ''.jpg'' = ''0707.jpg''" by code_simp
  have j: "Join [''images'', ''0707.jpg''] = ''images/0707.jpg''" by code_simp
  have n: "default_only (Join [''images'', hex_encode (example_digest [7, 7, 7]) @ ''.jpg'']) = None"
    by code_simp
  note t = AddItem_default_image[OF a b d]
  from t have "image_name (last (items (snd (snd ?r)))) = hex_encode (example_digest [7, 7, 7]) @ ''.jpg''"
    by blast
  then have i: "image_name (last (items (snd (snd ?r)))) = ''0707.jpg''" by (simp only: h)
  from t n have "fst (snd ?r) =
      default_only(Join [''images'', hex_encode (example_digest [7, 7, 7]) @ ''.jpg''] \<mapsto> [7, 7, 7])"
    by blast
  then have f: "fst (snd ?r) = default_only(''images/0707.jpg'' \<mapsto> [7, 7, 7])"
    by (simp only: h j)
  from a b c h i n f show ?thesis by blast
qed

end
